theory Spec2Isabelle
  imports Main "HOL-Library.AList"
begin

section \<open>Shared data model\<close>

text \<open>
  The process environment (\<^verbatim>\<open>process.env\<close>) is a finite map from names to strings.
  A name that is unset reads as \<^verbatim>\<open>undefined\<close>, modelled by \<open>None\<close>.
\<close>

type_synonym process_env = "string \<rightharpoonup> string"

text \<open>Every exception the modelled code raises is a value of this type.\<close>

datatype error =
    MissingEnv string
  | FormatError string string nat nat
  | PathError string
  | PlatformError string

section \<open>EnvAccessor (env.ts, createEnvAccessor)\<close>

text \<open>
  The accessor closes over the mutable set \<^verbatim>\<open>registered\<close>. A JavaScript \<^verbatim>\<open>Set\<close> keeps
  insertion order and ignores a second insertion, so the state is a list without
  repetition and \<open>set_add\<close> is \<^verbatim>\<open>Set.prototype.add\<close>. Each operation takes the state and
  returns the new one next to its result; a raised exception is \<open>Inl\<close>, and the state
  change made before the \<^verbatim>\<open>throw\<close> is kept, as in the source.
\<close>

definition set_add :: "'a \<Rightarrow> 'a list \<Rightarrow> 'a list" where
  "set_add x xs = (if x \<in> set xs then xs else xs @ [x])"

definition createEnvAccessor :: "string list \<Rightarrow> string list" where
  "createEnvAccessor knownKeys = fold set_add knownKeys []"

definition read :: "string \<Rightarrow> string option \<Rightarrow> process_env \<Rightarrow> string list
    \<Rightarrow> (error + string) \<times> string list" where
  "read name dflt pe registered =
     (let registered' = set_add name registered in
      case pe name of
        None \<Rightarrow> (case dflt of
                   Some d \<Rightarrow> (Inr d, registered')
                 | None \<Rightarrow> (Inl (MissingEnv name), registered'))
      | Some v \<Rightarrow> (Inr v, registered'))"

definition optional :: "string \<Rightarrow> process_env \<Rightarrow> string list \<Rightarrow> string option \<times> string list" where
  "optional name pe registered =
     (let registered' = set_add name registered in
      case pe name of None \<Rightarrow> (None, registered') | Some v \<Rightarrow> (Some v, registered'))"

definition has :: "string \<Rightarrow> process_env \<Rightarrow> string list \<Rightarrow> bool" where
  "has name pe registered =
     (if name \<in> set registered then True
      else if pe name \<noteq> None then True
      else False)"

definition register :: "string list \<Rightarrow> string list \<Rightarrow> string list" where
  "register names registered = fold set_add names registered"

section \<open>Trees, cloneValue and mergeValues (config.ts)\<close>

text \<open>
  A configuration tree is a JavaScript value: \<^verbatim>\<open>undefined\<close>, \<^verbatim>\<open>null\<close>, a boolean, a number,
  a string, an array or an object. The number type is a parameter \<open>'n\<close>: the merger never
  inspects numbers. An object \<open>TObj p kvs\<close> is its prototype \<open>p\<close>, which is
  \<open>TObjectPrototype\<close> for an object literal and for what \<^verbatim>\<open>JSON.parse\<close> returns, \<open>TNull\<close>
  for \<^verbatim>\<open>Object.create(null)\<close>, or another object, and the list \<open>kvs\<close> of its own entries
  (all enumerable data properties) in insertion order. \<open>TObjectPrototype\<close> is the object
  \<^verbatim>\<open>Object.prototype\<close> itself and \<open>TFun k\<close> the built-in function that \<^verbatim>\<open>Object.prototype\<close>
  holds under the name \<open>k\<close>: the merger reads both from a base object through the
  operator \<^verbatim>\<open>in\<close> and the property read \<^verbatim>\<open>b[k]\<close>, which follow the prototype chain.
\<close>

datatype 'n tree =
    TUndefined
  | TNull
  | TBool bool
  | TNum 'n
  | TStr string
  | TFun string
  | TObjectPrototype
  | TArr "'n tree list"
  | TObj "'n tree" "(string \<times> 'n tree) list"

text \<open>The names of the own properties of \<^verbatim>\<open>Object.prototype\<close>; none of them is enumerable.\<close>

definition OBJECT_PROTOTYPE_KEYS :: "string list" where
  "OBJECT_PROTOTYPE_KEYS =
     [''constructor'', ''__defineGetter__'', ''__defineSetter__'', ''hasOwnProperty'',
      ''__lookupGetter__'', ''__lookupSetter__'', ''isPrototypeOf'', ''propertyIsEnumerable'',
      ''toString'', ''valueOf'', ''__proto__'', ''toLocaleString'']"

fun is_arr :: "'n tree \<Rightarrow> bool" where
  "is_arr (TArr xs) = True"
| "is_arr v = False"

fun arr_items :: "'n tree \<Rightarrow> 'n tree list" where
  "arr_items (TArr xs) = xs"
| "arr_items v = []"

text \<open>\<^verbatim>\<open>typeof v === "object" || typeof v === "function"\<close>, for \<open>v\<close> other than \<^verbatim>\<open>null\<close>.\<close>

fun is_object :: "'n tree \<Rightarrow> bool" where
  "is_object (TObj p kvs) = True"
| "is_object (TArr xs) = True"
| "is_object (TFun k) = True"
| "is_object TObjectPrototype = True"
| "is_object v = False"

text \<open>
  \<^verbatim>\<open>isPlainObject\<close>: an object, not an array and not a function, whose prototype is \<^verbatim>\<open>null\<close>
  or \<^verbatim>\<open>Object.prototype\<close>. The prototype of \<^verbatim>\<open>Object.prototype\<close> is \<^verbatim>\<open>null\<close>.
\<close>

fun isPlainObject :: "'n tree \<Rightarrow> bool" where
  "isPlainObject (TObj p kvs) = (p = TNull \<or> p = TObjectPrototype)"
| "isPlainObject TObjectPrototype = True"
| "isPlainObject v = False"

text \<open>\<^verbatim>\<open>Object.entries(v)\<close> for a plain object: its own enumerable entries.\<close>

fun entries :: "'n tree \<Rightarrow> (string \<times> 'n tree) list" where
  "entries (TObj p kvs) = kvs"
| "entries v = []"

text \<open>
  \<^verbatim>\<open>k in b\<close> and \<^verbatim>\<open>b[k]\<close> for a plain object \<open>b\<close>: an own property first, then the
  properties of \<^verbatim>\<open>Object.prototype\<close> when that is the prototype. The inherited property
  \<^verbatim>\<open>__proto__\<close> is an accessor whose getter returns the prototype of \<open>b\<close>; the other
  inherited properties are functions.
\<close>

fun js_in :: "string \<Rightarrow> 'n tree \<Rightarrow> bool" where
  "js_in k (TObj p kvs) =
     (map_of kvs k \<noteq> None \<or> (p = TObjectPrototype \<and> k \<in> set OBJECT_PROTOTYPE_KEYS))"
| "js_in k TObjectPrototype = (k \<in> set OBJECT_PROTOTYPE_KEYS)"
| "js_in k v = False"

fun js_get :: "string \<Rightarrow> 'n tree \<Rightarrow> 'n tree" where
  "js_get k (TObj p kvs) =
     (case map_of kvs k of
        Some v \<Rightarrow> v
      | None \<Rightarrow>
          if p = TObjectPrototype \<and> k = ''__proto__'' then TObjectPrototype
          else if p = TObjectPrototype \<and> k \<in> set OBJECT_PROTOTYPE_KEYS then TFun k
          else TUndefined)"
| "js_get k TObjectPrototype =
     (if k = ''__proto__'' then TNull
      else if k \<in> set OBJECT_PROTOTYPE_KEYS then TFun k
      else TUndefined)"
| "js_get k v = TUndefined"

text \<open>
  The assignment \<^verbatim>\<open>result[k] = v\<close> to an object given by its prototype and its entries. An
  own property is overwritten. Otherwise the property is looked up along the prototype
  chain: \<^verbatim>\<open>__proto__\<close> found on \<^verbatim>\<open>Object.prototype\<close> is an accessor, and its setter makes
  \<open>v\<close> the prototype of the object when \<open>v\<close> is an object or \<^verbatim>\<open>null\<close> and does nothing
  otherwise, so no own property is created; every other assignment creates the own
  property. \<open>setter_reachable p\<close>: the chain that starts at \<open>p\<close> reaches
  \<^verbatim>\<open>Object.prototype\<close> without meeting an own data property \<^verbatim>\<open>__proto__\<close>. (The own
  properties of a function, which are not writable, are not modelled: they matter only
  for an assignment to an object that has a function on its prototype chain.)
\<close>

fun setter_reachable :: "'n tree \<Rightarrow> bool" where
  "setter_reachable TObjectPrototype = True"
| "setter_reachable (TObj p kvs) = (map_of kvs ''__proto__'' = None \<and> setter_reachable p)"
| "setter_reachable (TArr xs) = True"
| "setter_reachable (TFun k) = True"
| "setter_reachable v = False"

definition js_assign :: "string \<Rightarrow> 'n tree \<Rightarrow> 'n tree \<times> (string \<times> 'n tree) list
    \<Rightarrow> 'n tree \<times> (string \<times> 'n tree) list" where
  "js_assign k v obj =
     (case obj of (p, kvs) \<Rightarrow>
        if map_of kvs k = None \<and> k = ''__proto__'' \<and> setter_reachable p
        then (if is_object v \<or> v = TNull then (v, kvs) else (p, kvs))
        else (p, AList.update k v kvs))"

text \<open>The object literal \<^verbatim>\<open>{}\<close>, and the object that a prototype and entries make.\<close>

definition empty_object :: "'n tree \<times> (string \<times> 'n tree) list" where
  "empty_object = (TObjectPrototype, [])"

definition object_of :: "'n tree \<times> (string \<times> 'n tree) list \<Rightarrow> 'n tree" where
  "object_of obj = TObj (fst obj) (snd obj)"

text \<open>
  \<^verbatim>\<open>cloneValue\<close>: a new array of the clones; for a plain object a new object literal to
  which every own entry is assigned, cloned; any other value itself.
\<close>

fun cloneValue :: "'n tree \<Rightarrow> 'n tree" where
  "cloneValue (TArr xs) = TArr (map cloneValue xs)"
| "cloneValue (TObj p src) =
     (if p = TNull \<or> p = TObjectPrototype
      then object_of (fold (\<lambda>kv dst. js_assign (fst kv) (cloneValue (snd kv)) dst) src empty_object)
      else TObj p src)"
| "cloneValue TObjectPrototype = object_of empty_object"
| "cloneValue v = v"

text \<open>
  \<^verbatim>\<open>mergeValues\<close>, branch by branch as in the source: \<^verbatim>\<open>next\<close> absent, \<^verbatim>\<open>base\<close> absent, two
  arrays, two plain objects, anything else. For two plain objects the result starts as
  an object literal, receives the cloned entries of \<^verbatim>\<open>base\<close> and then, for each entry of
  \<^verbatim>\<open>next\<close>, \<^verbatim>\<open>k in b ? mergeValues(b[k], v) : cloneValue(v)\<close>.
\<close>

function mergeValues :: "'n tree \<Rightarrow> 'n tree \<Rightarrow> 'n tree" where
  "mergeValues base next =
     (if next = TUndefined then cloneValue base
      else if base = TUndefined then cloneValue next
      else if is_arr base \<and> is_arr next then TArr (map cloneValue (arr_items next))
      else if isPlainObject base \<and> isPlainObject next then
        object_of
          (fold (\<lambda>kv result.
                   js_assign (fst kv)
                     (if js_in (fst kv) base then mergeValues (js_get (fst kv) base) (snd kv)
                      else cloneValue (snd kv))
                     result)
             (entries next)
             (fold (\<lambda>kv result. js_assign (fst kv) (cloneValue (snd kv)) result)
                (entries base) empty_object))
      else cloneValue next)"
  by pat_completeness auto

termination
proof (relation "measure (\<lambda>(base, next). size next)")
  show "wf (measure (\<lambda>(base, next). size next))" by simp
next
  fix base "next" :: "'n tree" and kv :: "string \<times> 'n tree" and result :: "'n tree \<times> (string \<times> 'n tree) list"
  assume "kv \<in> set (entries next)"
  then have "size (snd kv) < size next"
  proof (cases "next")
    case (TObj p kvs)
    assume "kv \<in> set (entries next)"
    then have m: "kv \<in> set kvs" using TObj by simp
    have "size (snd kv) \<le> size_prod (\<lambda>_. 0) size kv" by (cases kv) simp
    also have "\<dots> \<le> size_list (size_prod (\<lambda>_. 0) size) kvs"
      using m by (simp add: size_list_estimation')
    finally show ?thesis using TObj by simp
  qed simp_all
  then show "((js_get (fst kv) base, snd kv), (base, next)) \<in> measure (\<lambda>(base, next). size next)"
    by simp
qed

declare mergeValues.simps [simp del]

text \<open>The key set of a tree: the own keys of an object, and no key otherwise.\<close>

fun keys_of :: "'n tree \<Rightarrow> string set" where
  "keys_of (TObj p kvs) = set (map fst kvs)"
| "keys_of v = {}"

text \<open>
  \<open>ordinary_keys\<close>: every plain object in the tree, at every depth below arrays and plain
  objects, has each own key once (as every JavaScript object has) and has no own key that
  names a property of \<^verbatim>\<open>Object.prototype\<close>.
\<close>

fun ordinary_keys :: "'n tree \<Rightarrow> bool" where
  "ordinary_keys (TArr xs) = (\<forall>x \<in> set xs. ordinary_keys x)"
| "ordinary_keys (TObj p kvs) =
     (p = TNull \<or> p = TObjectPrototype \<longrightarrow>
        distinct (map fst kvs) \<and>
        (\<forall>kv \<in> set kvs. fst kv \<notin> set OBJECT_PROTOTYPE_KEYS \<and> ordinary_keys (snd kv)))"
| "ordinary_keys v = True"

section \<open>Dotenv: the sentinel list and populate (dotenv.ts)\<close>

definition SENTINEL_VARS :: string where
  "SENTINEL_VARS = ''NODE_DOTENV_VARS''"

definition SENTINEL_PATH :: string where
  "SENTINEL_PATH = ''NODE_DOTENV_PATH''"

text \<open>
  Strings are lists of code units below 256. \<open>is_js_space\<close> is the part of JavaScript's
  white space and line terminators in that range (TAB, LF, VT, FF, CR, SP, NBSP); it is
  what \<^verbatim>\<open>String.prototype.trim\<close> strips and what the regular expression class \<^verbatim>\<open>\s\<close> matches.
\<close>

definition is_js_space :: "char \<Rightarrow> bool" where
  "is_js_space c = (c \<in> set [CHR 0x09, CHR 0x0A, CHR 0x0B, CHR 0x0C, CHR 0x0D, CHR 0x20, CHR 0xA0])"

definition js_trim :: "string \<Rightarrow> string" where
  "js_trim s = rev (dropWhile is_js_space (rev (dropWhile is_js_space s)))"

text \<open>\<^verbatim>\<open>s.split(c)\<close> for a one-character separator: never empty, \<^verbatim>\<open>"".split(",")\<close> is \<^verbatim>\<open>[""]\<close>.\<close>

fun js_split :: "char \<Rightarrow> string \<Rightarrow> string list" where
  "js_split c [] = [[]]"
| "js_split c (x # xs) =
     (if x = c then [] # js_split c xs
      else (case js_split c xs of
              [] \<Rightarrow> [[x]]
            | y # ys \<Rightarrow> (x # y) # ys))"

fun js_join :: "string \<Rightarrow> string list \<Rightarrow> string" where
  "js_join sep [] = []"
| "js_join sep [x] = x"
| "js_join sep (x # y # ys) = x @ sep @ js_join sep (y # ys)"

text \<open>
  \<^verbatim>\<open>new Set((process.env[SENTINEL_VARS] ?? "").split(",").map(s => s.trim()).filter(Boolean))\<close>,
  the set of names loaded by earlier calls, in insertion order.
\<close>

definition loadedVars :: "process_env \<Rightarrow> string list" where
  "loadedVars pe =
     fold set_add
       (filter (\<lambda>s. s \<noteq> [])
          (map js_trim (js_split CHR '','' (case pe SENTINEL_VARS of None \<Rightarrow> [] | Some s \<Rightarrow> s))))
       []"

text \<open>
  The process as \<^verbatim>\<open>populate\<close> and the cascade change it: the environment \<^verbatim>\<open>process.env\<close>
  and, next to it, two histories that the program itself does not keep: the list of the
  assignments \<^verbatim>\<open>process.env[name] = value\<close> made so far, in order, and the list of the files
  \<^verbatim>\<open>loadBuffer\<close> has parsed so far, each with the values its parse returned. \<open>setenv\<close> is
  one assignment.
\<close>

record process =
  p_env :: process_env
  p_writes :: "(string \<times> string) list"
  p_loaded :: "(string \<times> (string \<times> string) list) list"

definition setenv :: "string \<Rightarrow> string \<Rightarrow> process \<Rightarrow> process" where
  "setenv name val ps =
     ps\<lparr>p_env := (p_env ps)(name \<mapsto> val), p_writes := p_writes ps @ [(name, val)]\<rparr>"

text \<open>
  The \<^verbatim>\<open>for\<close> loop of \<^verbatim>\<open>populate\<close> over \<^verbatim>\<open>Object.entries(values)\<close>. The loop state is the
  process, the set \<^verbatim>\<open>loadedVars\<close> and the flag \<^verbatim>\<open>updateLoadedVars\<close>.
\<close>

fun populate_loop :: "(string \<times> string) list \<Rightarrow> bool
    \<Rightarrow> process \<times> string list \<times> bool \<Rightarrow> process \<times> string list \<times> bool" where
  "populate_loop [] overrideExisting st = st"
| "populate_loop ((name, val) # rest) overrideExisting (ps, lv, upd) =
     (if name \<notin> set lv \<and> \<not> overrideExisting \<and> p_env ps name \<noteq> None
      then populate_loop rest overrideExisting (ps, lv, upd)
      else
        let ps' = setenv name val ps in
        if name \<notin> set lv
        then populate_loop rest overrideExisting (ps', set_add name lv, True)
        else populate_loop rest overrideExisting (ps', lv, upd))"

definition populate :: "(string \<times> string) list \<Rightarrow> bool \<Rightarrow> process \<Rightarrow> process" where
  "populate values overrideExisting ps =
     (case populate_loop values overrideExisting (ps, loadedVars (p_env ps), False) of
        (ps', lv, upd) \<Rightarrow>
          if upd then setenv SENTINEL_VARS (js_join '','' lv) ps' else ps')"

section \<open>Dotenv: the parser state (dotenv.ts)\<close>

abbreviation LF :: char where "LF \<equiv> CHR 0x0A"
abbreviation CR :: char where "CR \<equiv> CHR 0x0D"
abbreviation TAB :: char where "TAB \<equiv> CHR 0x09"
abbreviation SP :: char where "SP \<equiv> CHR 0x20"
abbreviation BSL :: char where "BSL \<equiv> CHR 0x5C"
abbreviation DQ :: char where "DQ \<equiv> CHR 0x22"
abbreviation SQ :: char where "SQ \<equiv> CHR 0x27"

text \<open>
  The private fields of the \<^verbatim>\<open>Dotenv\<close> instance that \<^verbatim>\<open>parse\<close> sets and its helpers read and
  write. \<open>path_f\<close>, \<open>data_f\<close> and \<open>end_f\<close> are the fields \<^verbatim>\<open>path_\<close>, \<^verbatim>\<open>data_\<close> and \<^verbatim>\<open>end_\<close>;
  \<open>values_f\<close> is the object \<^verbatim>\<open>this.values\<close>, an entry list like the objects above.
\<close>

record lexer =
  path_f :: string
  data_f :: string
  cursor :: nat
  lineno :: nat
  end_f :: nat
  values_f :: "(string \<times> string) list"

definition createFormatError :: "lexer \<Rightarrow> string \<Rightarrow> error" where
  "createFormatError st message = FormatError message (path_f st) (lineno st) (cursor st)"

text \<open>\<^verbatim>\<open>s[i]\<close>: the code unit at index \<open>i\<close>, \<^verbatim>\<open>undefined\<close> (\<open>None\<close>) out of range.\<close>

definition at :: "string \<Rightarrow> nat \<Rightarrow> char option" where
  "at s i = (if i < length s then Some (s ! i) else None)"

subsection \<open>Variable names\<close>

definition is_upper :: "char \<Rightarrow> bool" where
  "is_upper c = (c \<in> set ''ABCDEFGHIJKLMNOPQRSTUVWXYZ'')"

definition is_name_char :: "char \<Rightarrow> bool" where
  "is_name_char c = (is_upper c \<or> c \<in> set ''0123456789_'')"

text \<open>
  The regular expression \<^verbatim>\<open>_?[A-Z][A-Z0-9_]*\<close> matched at the start of \<open>s\<close>: the matched
  text, or \<open>None\<close>. A leading underscore that no capital letter follows makes the match
  fail, since the underscore is not in \<^verbatim>\<open>[A-Z]\<close>.
\<close>

definition match_varname :: "string \<Rightarrow> string option" where
  "match_varname s =
     (case s of
        [] \<Rightarrow> None
      | c # r \<Rightarrow>
          if c = CHR ''_'' then
            (case r of
               [] \<Rightarrow> None
             | c' # r' \<Rightarrow> if is_upper c' then Some (c # c' # takeWhile is_name_char r') else None)
          else if is_upper c then Some (c # takeWhile is_name_char r)
          else None)"

subsection \<open>resolveVariables\<close>

text \<open>
  One match of the regular expression of \<^verbatim>\<open>resolveVariables\<close>,
  \<^verbatim>\<open>(?<!\\)(?<backslashes>\\*)\$(?!\()(?<opening_brace>\{)?(?<name>_?[A-Z][A-Z0-9_]*)?(?<default>:[-=][^}]*)?(?<closing_brace>\})?\<close>,
  with its groups. Every part after the dollar sign is optional and greedy, so the first
  greedy choice is the match.
\<close>

record var_match =
  vm_text :: string
  vm_backslashes :: string
  vm_opening :: bool
  vm_name :: "string option"
  vm_default :: "string option"
  vm_closing :: bool

text \<open>
  \<open>match_variable s\<close> matches the expression at the start of \<open>s\<close>, the look-behind apart
  (the caller checks it), and returns the match and the text after it. The matched text
  is the concatenation of what the groups matched.
\<close>

definition opt_char :: "char \<Rightarrow> string \<Rightarrow> bool \<times> string" where
  "opt_char c s = (case s of [] \<Rightarrow> (False, s) | x # r \<Rightarrow> if x = c then (True, r) else (False, s))"

definition match_default :: "string \<Rightarrow> string option" where
  "match_default s =
     (case s of
        c1 # c2 # r \<Rightarrow>
          if c1 = CHR '':'' \<and> (c2 = CHR ''-'' \<or> c2 = CHR ''='')
          then Some (c1 # c2 # takeWhile (\<lambda>c. c \<noteq> CHR ''}'') r)
          else None
      | _ \<Rightarrow> None)"

text \<open>
  The text that the default group can match before a closing brace: nothing, or \<open>:-\<close> or
  \<open>:=\<close> and a body without closing brace.
\<close>

definition default_text :: "string \<Rightarrow> bool" where
  "default_text t = (t = [] \<or> (\<exists>d. (t = '':-'' @ d \<or> t = '':='' @ d) \<and> CHR ''}'' \<notin> set d))"

definition drop_match :: "string option \<Rightarrow> string \<Rightarrow> string" where
  "drop_match g s = (case g of None \<Rightarrow> s | Some t \<Rightarrow> drop (length t) s)"

definition match_variable :: "string \<Rightarrow> (var_match \<times> string) option" where
  "match_variable s =
     (let bs = takeWhile (\<lambda>c. c = BSL) s;
          s1 = dropWhile (\<lambda>c. c = BSL) s
      in case s1 of
           [] \<Rightarrow> None
         | d # s2 \<Rightarrow>
             if d \<noteq> CHR ''$'' then None
             else if at s2 0 = Some (CHR ''('') then None
             else
               let (opening, s3) = opt_char (CHR ''{'') s2;
                   name = match_varname s3;
                   s4 = drop_match name s3;
                   dflt = match_default s4;
                   s5 = drop_match dflt s4;
                   (closing, s6) = opt_char (CHR ''}'') s5
               in Some (\<lparr>vm_text = bs @ [CHR ''$''] @ (if opening then ''{'' else [])
                           @ (case name of None \<Rightarrow> [] | Some n \<Rightarrow> n)
                           @ (case dflt of None \<Rightarrow> [] | Some t \<Rightarrow> t)
                           @ (if closing then ''}'' else []),
                         vm_backslashes = bs,
                         vm_opening = opening,
                         vm_name = name,
                         vm_default = dflt,
                         vm_closing = closing\<rparr>, s6))"

text \<open>The lookup of a variable's value, in the precedence the callback spells out.\<close>

definition lookup_variable :: "string list \<Rightarrow> process_env \<Rightarrow> (string \<times> string) list
    \<Rightarrow> string \<Rightarrow> string" where
  "lookup_variable loaded pe vals name =
     (if name \<in> set loaded \<and> map_of vals name \<noteq> None then
        (case map_of vals name of Some v \<Rightarrow> v | None \<Rightarrow> [])
      else if pe name \<noteq> None then
        (case pe name of Some v \<Rightarrow> v | None \<Rightarrow> [])
      else if map_of vals name \<noteq> None then
        (case map_of vals name of Some v \<Rightarrow> v | None \<Rightarrow> [])
      else [])"

text \<open>
  The lookup precedence as the specification words it, to be compared with
  \<open>lookup_variable\<close>: (a) the value of the current parse when the name is in the
  loaded-by-us set and the parse has produced one; else (b) the process environment's
  value when set; else (c) any value produced earlier in the current parse; else the
  empty string.
\<close>

definition lookup_spec :: "string list \<Rightarrow> process_env \<Rightarrow> (string \<times> string) list
    \<Rightarrow> string \<Rightarrow> string" where
  "lookup_spec loaded pe vals name =
     (case (if name \<in> set loaded then map_of vals name else None) of
        Some v \<Rightarrow> v
      | None \<Rightarrow>
          (case pe name of
             Some v \<Rightarrow> v
           | None \<Rightarrow> (case map_of vals name of Some v \<Rightarrow> v | None \<Rightarrow> [])))"

fun findInvalidDefaultChar :: "string \<Rightarrow> string option" where
  "findInvalidDefaultChar [] = None"
| "findInvalidDefaultChar (ch # r) =
     (if ch = SQ \<or> ch = DQ \<or> ch = CHR ''{'' then Some [ch]
      else if ch = BSL then
        (if at r 0 = Some (CHR ''$'') then Some ''$'' else Some [BSL])
      else if ch = CHR ''$'' then Some ''$''
      else findInvalidDefaultChar r)"

text \<open>The replacer callback of \<^verbatim>\<open>resolveVariables\<close> for one match.\<close>

definition replace_variable :: "string list \<Rightarrow> process_env \<Rightarrow> lexer \<Rightarrow> var_match
    \<Rightarrow> error + (string \<times> lexer)" where
  "replace_variable loaded pe st m =
     (if vm_backslashes m \<noteq> [] \<and> length (vm_backslashes m) mod 2 = 1 then
        Inr (drop 1 (vm_text m), st)
      else case vm_name m of
        None \<Rightarrow> Inr (vm_text m, st)
      | Some name \<Rightarrow>
          if vm_opening m \<and> \<not> vm_closing m then
            Inl (createFormatError st ''Unclosed braces on variable expansion'')
          else
            let val = lookup_variable loaded pe (values_f st) name;
                suffix = (if \<not> vm_opening m \<and> vm_closing m then ''}'' else [])
            in case (if val = [] then vm_default m else None) of
                 Some def \<Rightarrow>
                   (let defaultBody = drop 2 def in
                    case findInvalidDefaultChar defaultBody of
                      Some bad \<Rightarrow>
                        Inl (createFormatError st
                          (''Unsupported character '' @ [DQ] @ bad @ [DQ]
                           @ '' found in the default value of variable '' @ [DQ] @ ''$'' @ name
                           @ [DQ] @ ''.''))
                    | None \<Rightarrow>
                        let st' = (if at def 1 = Some (CHR ''='')
                                   then st\<lparr>values_f := AList.update name defaultBody (values_f st)\<rparr>
                                   else st)
                        in Inr (vm_backslashes m @ defaultBody @ suffix, st'))
               | None \<Rightarrow> Inr (vm_backslashes m @ val @ suffix, st))"

text \<open>
  \<^verbatim>\<open>value.replace(re, callback)\<close> with the global flag: scan left to right, at each position
  try the match (only where the character before is not a backslash, the look-behind),
  replace it by the callback's result and go on after the match; a position with no
  match is copied. \<open>prev\<close> tells whether the character before the position is a backslash.
\<close>

function resolveVariables_scan :: "string list \<Rightarrow> process_env \<Rightarrow> bool \<Rightarrow> string \<Rightarrow> lexer
    \<Rightarrow> error + (string \<times> lexer)" where
  "resolveVariables_scan loaded pe prev [] st = Inr ([], st)"
| "resolveVariables_scan loaded pe prev (c # cs) st =
     (case (if prev then None else match_variable (c # cs)) of
        Some (m, rest) \<Rightarrow>
          (case replace_variable loaded pe st m of
             Inl e \<Rightarrow> Inl e
           | Inr (rep, st') \<Rightarrow>
               (case resolveVariables_scan loaded pe (last (vm_text m) = BSL) rest st' of
                  Inl e \<Rightarrow> Inl e
                | Inr (out, st'') \<Rightarrow> Inr (rep @ out, st'')))
      | None \<Rightarrow>
          (case resolveVariables_scan loaded pe (c = BSL) cs st of
             Inl e \<Rightarrow> Inl e
           | Inr (out, st') \<Rightarrow> Inr (c # out, st')))"
  by pat_completeness auto
termination
proof (relation "measure (\<lambda>(loaded, pe, prev, s, st). length s)")
  show "wf (measure (\<lambda>(loaded, pe, prev, s, st). length s))" by simp
next
  fix loaded :: "string list" and pe :: process_env and prev c cs and st st' :: lexer
    and x2 m rest
  assume "(if prev then None else match_variable (c # cs)) = Some x2" and "(m, rest) = x2"
  then have m: "match_variable (c # cs) = Some (m, rest)" by (auto split: if_splits)
  have oc: "length (snd (opt_char x t)) \<le> length t" for x t
    by (simp add: opt_char_def split: list.splits)
  have dm: "length (drop_match g t) \<le> length t" for g t
    by (simp add: drop_match_def split: option.splits)
  obtain d s2 where s1: "dropWhile (\<lambda>c. c = BSL) (c # cs) = d # s2"
    using m by (auto simp: match_variable_def Let_def split: list.splits)
  have l2: "length s2 < length (c # cs)"
    using length_dropWhile_le[of "\<lambda>c. c = BSL" "c # cs"] s1 by simp
  define s3 where "s3 = snd (opt_char (CHR ''{'') s2)"
  define s4 where "s4 = drop_match (match_varname s3) s3"
  define s5 where "s5 = drop_match (match_default s4) s4"
  have "rest = snd (opt_char (CHR ''}'') s5)"
    using m unfolding match_variable_def Let_def s1 s3_def s4_def s5_def
    by (simp add: case_prod_unfold split: if_splits)
  then have "length rest \<le> length s5" using oc by simp
  also have "\<dots> \<le> length s4" unfolding s5_def by (rule dm)
  also have "\<dots> \<le> length s3" unfolding s4_def by (rule dm)
  also have "\<dots> \<le> length s2" unfolding s3_def by (rule oc)
  finally have "length rest < length (c # cs)" using l2 by simp
  then show "((loaded, pe, last (vm_text m) = BSL, rest, st'), loaded, pe, prev, c # cs, st)
      \<in> measure (\<lambda>(loaded, pe, prev, s, st). length s)"
    by simp
next
  fix loaded :: "string list" and pe :: process_env and prev c cs and st :: lexer
  show "((loaded, pe, c = BSL, cs, st), loaded, pe, prev, c # cs, st)
      \<in> measure (\<lambda>(loaded, pe, prev, s, st). length s)"
    by simp
qed

definition resolveVariables :: "string list \<Rightarrow> process_env \<Rightarrow> string \<Rightarrow> lexer
    \<Rightarrow> error + (string \<times> lexer)" where
  "resolveVariables loaded pe val st =
     (if CHR ''$'' \<notin> set val then Inr (val, st)
      else resolveVariables_scan loaded pe False val st)"

subsection \<open>The outside world\<close>

text \<open>
  What the parser and the cascade take from outside the program: the platform name, the
  result of \<^verbatim>\<open>spawnSync(command, {env, shell: "/bin/sh"})\<close> and the files that can be read
  (\<^verbatim>\<open>tryReadFile\<close> gives \<^verbatim>\<open>null\<close>, here \<open>None\<close>, for a missing file or a directory). A file
  is read as a \<^verbatim>\<open>Buffer\<close>, the list of its bytes; \<open>toString_utf8\<close> is \<^verbatim>\<open>buf.toString("utf8")\<close>,
  the decoding that the runtime makes of the bytes. A decoded text is a string of this
  model, a list of code units below 256: the model covers the files whose text has no
  character above \<^verbatim>\<open>U+00FF\<close>.
\<close>

record spawn_result =
  sp_error :: "string option"
  sp_status :: "int option"
  sp_stdout :: string
  sp_stderr :: string

record world =
  platform :: string
  spawnSync :: "string \<Rightarrow> process_env \<Rightarrow> spawn_result"
  readFile :: "string \<rightharpoonup> string"
  toString_utf8 :: "string \<Rightarrow> string"

definition tryReadFile :: "world \<Rightarrow> string \<Rightarrow> string option" where
  "tryReadFile w p = readFile w p"

subsection \<open>Cursor movement\<close>

definition moveCursor :: "string \<Rightarrow> lexer \<Rightarrow> lexer" where
  "moveCursor text st =
     st\<lparr>cursor := cursor st + length text, lineno := lineno st + count_list text LF\<rparr>"

text \<open>\<^verbatim>\<open>while (this.cursor < this.end_ && this.data_[this.cursor] !== "\n") this.cursor++\<close>\<close>

function skip_to_newline :: "lexer \<Rightarrow> lexer" where
  "skip_to_newline st =
     (if cursor st < end_f st \<and> at (data_f st) (cursor st) \<noteq> Some LF
      then skip_to_newline (st\<lparr>cursor := cursor st + 1\<rparr>)
      else st)"
  by pat_completeness auto
termination
  by (relation "measure (\<lambda>st. end_f st - cursor st)") auto

declare skip_to_newline.simps [simp del]

function skipEmptyLines :: "lexer \<Rightarrow> lexer" where
  "skipEmptyLines st =
     (if cursor st < end_f st then
        (let ch = at (data_f st) (cursor st) in
         if ch = Some SP \<or> ch = Some TAB \<or> ch = Some CR
         then skipEmptyLines (st\<lparr>cursor := cursor st + 1\<rparr>)
         else if ch = Some LF
         then skipEmptyLines (st\<lparr>cursor := cursor st + 1, lineno := lineno st + 1\<rparr>)
         else if ch = Some (CHR ''#'')
         then skipEmptyLines (skip_to_newline st)
         else st)
      else st)"
  by pat_completeness auto
termination
proof (relation "measure (\<lambda>st. end_f st - cursor st)")
  show "wf (measure (\<lambda>st. end_f st - cursor st))" by simp
next
  fix st :: lexer and x
  assume "cursor st < end_f st"
  then show "(st\<lparr>cursor := cursor st + 1\<rparr>, st) \<in> measure (\<lambda>st. end_f st - cursor st)"
    by auto
next
  fix st :: lexer and x
  assume "cursor st < end_f st"
  then show "(st\<lparr>cursor := cursor st + 1, lineno := lineno st + 1\<rparr>, st)
      \<in> measure (\<lambda>st. end_f st - cursor st)"
    by auto
next
  fix st :: lexer and x
  assume lt: "cursor st < end_f st" and x: "x = at (data_f st) (cursor st)"
    and h: "x = Some (CHR ''#'')"
  have mono: "end_f (skip_to_newline s) = end_f s \<and> cursor s \<le> cursor (skip_to_newline s)"
    for s :: lexer
  proof (induction s rule: skip_to_newline.induct)
    case (1 s)
    show ?case
    proof (cases "cursor s < end_f s \<and> at (data_f s) (cursor s) \<noteq> Some LF")
      case True
      then have "skip_to_newline s = skip_to_newline (s\<lparr>cursor := cursor s + 1\<rparr>)"
        by (subst skip_to_newline.simps) simp
      then show ?thesis using 1[OF True] by simp
    next
      case False
      then have "skip_to_newline s = s" by (subst skip_to_newline.simps) auto
      then show ?thesis by simp
    qed
  qed
  have "at (data_f st) (cursor st) = Some (CHR ''#'')" using x h by simp
  then have "at (data_f st) (cursor st) \<noteq> Some LF" by simp
  then have "skip_to_newline st = skip_to_newline (st\<lparr>cursor := cursor st + 1\<rparr>)"
    using lt by (subst skip_to_newline.simps) simp
  then have "end_f (skip_to_newline st) = end_f st \<and> cursor st < cursor (skip_to_newline st)"
    using mono[of "st\<lparr>cursor := cursor st + 1\<rparr>"] by simp
  then show "(skip_to_newline st, st) \<in> measure (\<lambda>st. end_f st - cursor st)"
    using lt by auto
qed

declare skipEmptyLines.simps [simp del]

subsection \<open>lexVarname\<close>

text \<open>The sticky regular expression \<^verbatim>\<open>export[ \t]*\<close> at the start of \<open>s\<close>.\<close>

definition match_export :: "string \<Rightarrow> string option" where
  "match_export s =
     (if take 6 s = ''export''
      then Some (''export'' @ takeWhile (\<lambda>c. c = SP \<or> c = TAB) (drop 6 s))
      else None)"

definition lexVarname :: "lexer \<Rightarrow> error + (string \<times> lexer)" where
  "lexVarname st =
     (let exportMatch = match_export (drop (cursor st) (data_f st));
          st1 = (case exportMatch of Some e \<Rightarrow> moveCursor e st | None \<Rightarrow> st)
      in case match_varname (drop (cursor st1) (data_f st1)) of
           None \<Rightarrow> Inl (createFormatError st1 ''Invalid character in variable name'')
         | Some varname \<Rightarrow>
             let st2 = moveCursor varname st1;
                 ch = at (data_f st2) (cursor st2)
             in if cursor st2 = end_f st2 \<or> ch = Some LF \<or> ch = Some (CHR ''#'') then
                  (if exportMatch \<noteq> None
                   then Inl (createFormatError st2 ''Unable to unset an environment variable'')
                   else Inl (createFormatError st2
                               ''Missing = in the environment variable declaration''))
                else if ch = Some SP \<or> ch = Some TAB then
                  Inl (createFormatError st2
                         ''Whitespace characters are not supported after the variable name'')
                else if ch \<noteq> Some (CHR ''='') then
                  Inl (createFormatError st2 ''Missing = in the environment variable declaration'')
                else Inr (varname, st2\<lparr>cursor := cursor st2 + 1\<rparr>))"

subsection \<open>Command substitution\<close>

text \<open>
  \<^verbatim>\<open>lexNestedExpression\<close>. Its loop tests \<^verbatim>\<open>this.data_[this.cursor]\<close> without testing the
  cursor against \<^verbatim>\<open>end_\<close>: entered with the cursor at \<^verbatim>\<open>end_\<close> (an opening parenthesis as
  the last character of the data) it reads \<^verbatim>\<open>undefined\<close> for ever. So the function, and
  with it the loops of the value lexer and of \<^verbatim>\<open>parse\<close> that call it, may not return. They
  are modelled with fuel: each loop iteration uses one unit, and \<open>None\<close> means that the fuel
  ran out. Pushing \<^verbatim>\<open>undefined\<close> on \<^verbatim>\<open>out\<close> adds nothing to \<^verbatim>\<open>out.join("")\<close>.
\<close>

fun lexNested_loop :: "nat \<Rightarrow> lexer \<Rightarrow> string \<Rightarrow> (error + (string \<times> lexer)) option" where
  "lexNested_loop 0 st out = None"
| "lexNested_loop (Suc n) st out =
     (let ch = at (data_f st) (cursor st) in
      if ch \<noteq> Some LF \<and> ch \<noteq> Some (CHR '')'') then
        (let out1 = out @ (case ch of Some c \<Rightarrow> [c] | None \<Rightarrow> []) in
         case (if ch = Some (CHR ''('') then
                 (case lexNested_loop n (st\<lparr>cursor := cursor st + 1\<rparr>) [] of
                    None \<Rightarrow> None
                  | Some (Inl e) \<Rightarrow> Some (Inl e)
                  | Some (Inr (inner, st')) \<Rightarrow> Some (Inr (out1 @ inner @ '')'', st')))
               else Some (Inr (out1, st))) of
           None \<Rightarrow> None
         | Some (Inl e) \<Rightarrow> Some (Inl e)
         | Some (Inr (out2, st2)) \<Rightarrow>
             let st3 = st2\<lparr>cursor := cursor st2 + 1\<rparr> in
             if cursor st3 = end_f st3
             then Some (Inl (createFormatError st3 ''Missing closing parenthesis.''))
             else lexNested_loop n st3 out2)
      else if ch = Some LF
      then Some (Inl (createFormatError st ''Missing closing parenthesis.''))
      else Some (Inr (out, st)))"

definition lexNestedExpression :: "nat \<Rightarrow> lexer \<Rightarrow> (error + (string \<times> lexer)) option" where
  "lexNestedExpression n st = lexNested_loop n (st\<lparr>cursor := cursor st + 1\<rparr>) []"

text \<open>\<^verbatim>\<open>countBackslashesLocal(s, index)\<close>: the backslashes right before \<open>index\<close>.\<close>

definition countBackslashesLocal :: "string \<Rightarrow> nat \<Rightarrow> nat" where
  "countBackslashesLocal s index = length (takeWhile (\<lambda>c. c = BSL) (rev (take index s)))"

text \<open>The offset of the first occurrence of the two characters \<open>a b\<close> in \<open>s\<close>.\<close>

fun find_pair :: "char \<Rightarrow> char \<Rightarrow> string \<Rightarrow> nat option" where
  "find_pair a b (x # y # r) =
     (if x = a \<and> y = b then Some 0 else map_option Suc (find_pair a b (y # r)))"
| "find_pair a b r = None"

text \<open>\<^verbatim>\<open>value.indexOf("$(", cursor)\<close>, for a cursor within the string.\<close>

definition indexOf_command :: "string \<Rightarrow> nat \<Rightarrow> nat option" where
  "indexOf_command val cur =
     map_option (\<lambda>k. cur + k) (find_pair (CHR ''$'') (CHR ''('') (drop cur val))"

text \<open>\<^verbatim>\<open>value.slice(a, b)\<close> for \<open>a \<le> b\<close>.\<close>

definition slice :: "string \<Rightarrow> nat \<Rightarrow> nat \<Rightarrow> string" where
  "slice s a b = take (b - a) (drop a s)"

fun extractCommand_loop :: "string \<Rightarrow> nat \<Rightarrow> nat \<Rightarrow> string \<Rightarrow> (string \<times> nat) option" where
  "extractCommand_loop [] depth i acc = None"
| "extractCommand_loop (c # r) depth i acc =
     (if c = CHR ''('' then extractCommand_loop r (depth + 1) (i + 1) (acc @ [c])
      else if c = CHR '')'' then
        (if depth - 1 = 0 then Some (acc, i)
         else extractCommand_loop r (depth - 1) (i + 1) (acc @ [c]))
      else extractCommand_loop r depth (i + 1) (acc @ [c]))"

definition extractCommand :: "lexer \<Rightarrow> string \<Rightarrow> nat \<Rightarrow> error + (string \<times> nat)" where
  "extractCommand st val start =
     (case extractCommand_loop (drop start val) 1 start [] of
        None \<Rightarrow> Inl (createFormatError st ''Missing closing parenthesis.'')
      | Some r \<Rightarrow> Inr r)"

definition executeCommand :: "world \<Rightarrow> string list \<Rightarrow> process_env \<Rightarrow> lexer \<Rightarrow> string
    \<Rightarrow> error + string" where
  "executeCommand w loaded pe st content =
     (if platform w = ''win32'' then
        Inl (PlatformError ''Resolving commands is not supported on Windows.'')
      else
        let childEnv = fold (\<lambda>kv ce. if fst kv \<in> set loaded \<or> pe (fst kv) = None
                                      then ce(fst kv \<mapsto> snd kv) else ce) (values_f st) pe;
            out = spawnSync w content childEnv
        in if sp_error out \<noteq> None \<or> sp_status out \<noteq> Some 0 then
             (let err = js_trim (if sp_stderr out \<noteq> [] then sp_stderr out
                                 else (case sp_error out of Some m \<Rightarrow> m | None \<Rightarrow> []))
              in Inl (createFormatError st (''Issue expanding a command ('' @ err @ '')'')))
           else Inr (rev (dropWhile (\<lambda>c. c = LF \<or> c = CR) (rev (sp_stdout out)))))"

function resolveCommands_loop :: "world \<Rightarrow> string list \<Rightarrow> process_env \<Rightarrow> lexer \<Rightarrow> string
    \<Rightarrow> nat \<Rightarrow> string \<Rightarrow> error + string" where
  "resolveCommands_loop w loaded pe st val cur out =
     (if cur < length val then
        (case indexOf_command val cur of
           None \<Rightarrow> Inr (out @ drop cur val)
         | Some start \<Rightarrow>
             if countBackslashesLocal val start mod 2 = 1 then
               resolveCommands_loop w loaded pe st val (start + 2)
                 (out @ slice val cur (max cur (start - 1)) @ ''$('')
             else
               (case extractCommand st val (start + 2) of
                  Inl e \<Rightarrow> Inl e
                | Inr (content, endIndex) \<Rightarrow>
                    (case executeCommand w loaded pe st content of
                       Inl e \<Rightarrow> Inl e
                     | Inr r \<Rightarrow>
                         resolveCommands_loop w loaded pe st val (endIndex + 1)
                           (out @ slice val cur start @ r))))
      else Inr out)"
  by pat_completeness auto
termination
proof (relation "measure (\<lambda>(w, loaded, pe, st, val, cur, out). length val - cur)")
  show "wf (measure (\<lambda>(w, loaded, pe, st, val, cur, out). length val - cur))" by simp
next
  fix w :: world and loaded :: "string list" and pe :: process_env and st :: lexer
    and val :: string and cur :: nat and out :: string and start :: nat
  assume lt: "cur < length val" and i: "indexOf_command val cur = Some start"
  have "cur \<le> start" using i by (auto simp: indexOf_command_def)
  then show "((w, loaded, pe, st, val, start + 2, out @ slice val cur (max cur (start - 1)) @ ''$(''),
              w, loaded, pe, st, val, cur, out)
      \<in> measure (\<lambda>(w, loaded, pe, st, val, cur, out). length val - cur)"
    using lt by simp
next
  fix w :: world and loaded :: "string list" and pe :: process_env and st :: lexer
    and val :: string and cur :: nat and out :: string and start :: nat
    and x2 :: "string \<times> nat" and content :: string and endIndex :: nat and r :: string
  assume lt: "cur < length val" and i: "indexOf_command val cur = Some start"
    and x: "extractCommand st val (start + 2) = Inr x2" and c: "(content, endIndex) = x2"
  have mono: "extractCommand_loop s depth j acc = Some (t, e) \<Longrightarrow> j \<le> e"
    for s depth j acc t e
    by (induction s depth j acc rule: extractCommand_loop.induct)
       (auto split: if_splits dest: Suc_leD)
  have "extractCommand_loop (drop (start + 2) val) 1 (start + 2) [] = Some (content, endIndex)"
    using x c by (auto simp: extractCommand_def split: option.splits)
  from mono[OF this] have "start + 2 \<le> endIndex" .
  moreover have "cur \<le> start" using i by (auto simp: indexOf_command_def)
  ultimately show "((w, loaded, pe, st, val, endIndex + 1, out @ slice val cur start @ r),
              w, loaded, pe, st, val, cur, out)
      \<in> measure (\<lambda>(w, loaded, pe, st, val, cur, out). length val - cur)"
    using lt by simp
qed

declare resolveCommands_loop.simps [simp del]

definition resolveCommands :: "world \<Rightarrow> string list \<Rightarrow> process_env \<Rightarrow> lexer \<Rightarrow> string
    \<Rightarrow> error + string" where
  "resolveCommands w loaded pe st val =
     (if find_pair (CHR ''$'') (CHR ''('') val = None then Inr val
      else resolveCommands_loop w loaded pe st val 0 [])"

subsection \<open>lexValue\<close>

text \<open>
  The sticky multi-line regular expression \<^verbatim>\<open>[ \t]*(?:#.*)?$\<close> at the start of \<open>s\<close>: blanks,
  then an optional comment up to the end of the line, then the end of the line (the end
  of the data, or a line terminator next). The dot does not match a line terminator.
\<close>

definition match_eol_or_comment :: "string \<Rightarrow> string option" where
  "match_eol_or_comment s =
     (let ws = takeWhile (\<lambda>c. c = SP \<or> c = TAB) s;
          r = drop (length ws) s
      in case r of
           [] \<Rightarrow> Some ws
         | c # _ \<Rightarrow>
             if c = LF \<or> c = CR then Some ws
             else if c = CHR ''#'' then Some (ws @ takeWhile (\<lambda>c. c \<noteq> LF \<and> c \<noteq> CR) r)
             else None)"

text \<open>
  \<^verbatim>\<open>s.replace(/ab/g, rep)\<close> for a pattern of two literal characters: left to right, without
  overlap.
\<close>

fun replace2 :: "char \<Rightarrow> char \<Rightarrow> string \<Rightarrow> string \<Rightarrow> string" where
  "replace2 a b rep (x # y # r) =
     (if x = a \<and> y = b then rep @ replace2 a b rep r else x # replace2 a b rep (y # r))"
| "replace2 a b rep r = r"

text \<open>
  The single-quoted segment. The loop of the source tests \<^verbatim>\<open>cursor + ++len === end_\<close>; it is
  entered with the cursor before \<^verbatim>\<open>end_\<close>, so the sum reaches \<^verbatim>\<open>end_\<close> before it could pass
  it, and the model tests \<open>\<ge>\<close>.
\<close>

function single_quote_len :: "lexer \<Rightarrow> nat \<Rightarrow> error + nat" where
  "single_quote_len st len =
     (let len' = len + 1 in
      if cursor st + len' \<ge> end_f st then
        Inl (createFormatError (st\<lparr>cursor := cursor st + len'\<rparr>) ''Missing quote to end the value'')
      else if at (data_f st) (cursor st + len') = Some SQ then Inr len'
      else single_quote_len st len')"
  by pat_completeness auto
termination
  by (relation "measure (\<lambda>(st, len). end_f st - (cursor st + len))") auto

declare single_quote_len.simps [simp del]

definition single_quoted :: "lexer \<Rightarrow> error + (string \<times> lexer)" where
  "single_quoted st =
     (case single_quote_len st 0 of
        Inl e \<Rightarrow> Inl e
      | Inr len \<Rightarrow>
          Inr (slice (data_f st) (cursor st + 1) (cursor st + len),
               st\<lparr>cursor := cursor st + (1 + len)\<rparr>))"

text \<open>
  The loop of the double-quoted segment; \<open>inner\<close> holds the characters from \<^verbatim>\<open>start\<close> to the
  cursor, so the backslashes counted back from the cursor down to \<^verbatim>\<open>start\<close> are the
  backslashes that end \<open>inner\<close>. As above the test \<^verbatim>\<open>cursor === end_\<close> is modelled by \<open>\<ge>\<close>.
\<close>

function double_quote_scan :: "lexer \<Rightarrow> string \<Rightarrow> error + (string \<times> lexer)" where
  "double_quote_scan st inner =
     (if cursor st \<ge> end_f st then
        Inl (createFormatError st ''Missing quote to end the value'')
      else if at (data_f st) (cursor st) = Some DQ
              \<and> length (takeWhile (\<lambda>c. c = BSL) (rev inner)) mod 2 = 0
      then Inr (inner, st)
      else double_quote_scan (st\<lparr>cursor := cursor st + 1\<rparr>)
             (inner @ (case at (data_f st) (cursor st) of Some c \<Rightarrow> [c] | None \<Rightarrow> [])))"
  by pat_completeness auto
termination
  by (relation "measure (\<lambda>(st, inner). end_f st - cursor st)") auto

declare double_quote_scan.simps [simp del]

definition double_quoted :: "world \<Rightarrow> string list \<Rightarrow> process_env \<Rightarrow> lexer
    \<Rightarrow> error + (string \<times> lexer)" where
  "double_quoted w loaded pe st =
     (let st1 = st\<lparr>cursor := cursor st + 1\<rparr> in
      if cursor st1 = end_f st1 then
        Inl (createFormatError st1 ''Missing quote to end the value'')
      else case double_quote_scan st1 [] of
        Inl e \<Rightarrow> Inl e
      | Inr (inner, st2) \<Rightarrow>
          let st3 = st2\<lparr>cursor := cursor st2 + 1\<rparr>;
              v0 = replace2 BSL (CHR ''n'') [LF]
                     (replace2 BSL (CHR ''r'') [CR] (replace2 BSL DQ [DQ] inner))
          in case resolveCommands w loaded pe st3 v0 of
               Inl e \<Rightarrow> Inl e
             | Inr v1 \<Rightarrow>
                 (case resolveVariables loaded pe v1 st3 of
                    Inl e \<Rightarrow> Inl e
                  | Inr (v2, st4) \<Rightarrow> Inr (replace2 BSL BSL [BSL] v2, st4)))"

text \<open>The \<^verbatim>\<open>while\<close> loop of the bare segment; \<open>prev\<close> and \<open>bare\<close> are its local variables.\<close>

fun bare_loop :: "nat \<Rightarrow> lexer \<Rightarrow> char option \<Rightarrow> string \<Rightarrow> (error + (string \<times> lexer)) option" where
  "bare_loop 0 st prev bare = None"
| "bare_loop (Suc n) st prev bare =
     (let ch = at (data_f st) (cursor st) in
      if cursor st < end_f st \<and> ch \<noteq> Some LF \<and> ch \<noteq> Some DQ \<and> ch \<noteq> Some SQ
         \<and> \<not> ((prev = Some SP \<or> prev = Some TAB) \<and> ch = Some (CHR ''#''))
      then
        let st1 = (if ch = Some BSL
                      \<and> (at (data_f st) (cursor st + 1) = Some DQ
                           \<or> at (data_f st) (cursor st + 1) = Some SQ)
                   then st\<lparr>cursor := cursor st + 1\<rparr> else st);
            prev' = at (data_f st1) (cursor st1)
        in if at (data_f st1) (cursor st1) = Some (CHR ''$'')
              \<and> at (data_f st1) (cursor st1 + 1) = Some (CHR ''('')
           then
             (case lexNestedExpression n (st1\<lparr>cursor := cursor st1 + 1\<rparr>) of
                None \<Rightarrow> None
              | Some (Inl e) \<Rightarrow> Some (Inl e)
              | Some (Inr (inner, st2)) \<Rightarrow>
                  bare_loop n (st2\<lparr>cursor := cursor st2 + 1\<rparr>) prev'
                    (bare @ ''('' @ inner @ '')''))
           else
             bare_loop n (st1\<lparr>cursor := cursor st1 + 1\<rparr>) prev'
               (bare @ (case at (data_f st1) (cursor st1) of Some c \<Rightarrow> [c] | None \<Rightarrow> []))
      else Some (Inr (bare, st)))"

text \<open>
  The bare segment. The third component of the result tells whether the segment ended in
  a comment, which ends the value (the \<^verbatim>\<open>break\<close> of the source).
\<close>

definition bare_value :: "nat \<Rightarrow> world \<Rightarrow> string list \<Rightarrow> process_env \<Rightarrow> lexer
    \<Rightarrow> (error + (string \<times> lexer \<times> bool)) option" where
  "bare_value n w loaded pe st =
     (let prev = (if cursor st = 0 then None else at (data_f st) (cursor st - 1)) in
      case bare_loop n st prev [] of
        None \<Rightarrow> None
      | Some (Inl e) \<Rightarrow> Some (Inl e)
      | Some (Inr (bare, st1)) \<Rightarrow>
          let val = rev (dropWhile (\<lambda>c. c = SP \<or> c = TAB) (rev bare)) in
          (case resolveCommands w loaded pe st1 val of
             Inl e \<Rightarrow> Some (Inl e)
           | Inr r1 \<Rightarrow>
               (case resolveVariables loaded pe r1 st1 of
                  Inl e \<Rightarrow> Some (Inl e)
                | Inr (r2, st2) \<Rightarrow>
                    let resolved = replace2 BSL BSL [BSL] r2 in
                    if resolved = val \<and> (\<exists>c \<in> set val. is_js_space c) then
                      Some (Inl (createFormatError st2
                        ''A value containing spaces must be surrounded by quotes''))
                    else if cursor st2 < end_f st2
                            \<and> at (data_f st2) (cursor st2) = Some (CHR ''#'')
                    then Some (Inr (resolved, skip_to_newline st2, True))
                    else Some (Inr (resolved, st2, False)))))"

text \<open>The \<^verbatim>\<open>do ... while\<close> loop of \<^verbatim>\<open>lexValue\<close> over the segments; \<open>chunks\<close> is \<^verbatim>\<open>chunks.join("")\<close>.\<close>

fun lexValue_loop :: "nat \<Rightarrow> world \<Rightarrow> string list \<Rightarrow> process_env \<Rightarrow> lexer \<Rightarrow> string
    \<Rightarrow> (error + (string \<times> lexer)) option" where
  "lexValue_loop 0 w loaded pe st chunks = None"
| "lexValue_loop (Suc n) w loaded pe st chunks =
     (let ch = at (data_f st) (cursor st) in
      case (if ch = Some SQ then
              (case single_quoted st of
                 Inl e \<Rightarrow> Some (Inl e)
               | Inr (v, st') \<Rightarrow> Some (Inr (v, st', False)))
            else if ch = Some DQ then
              (case double_quoted w loaded pe st of
                 Inl e \<Rightarrow> Some (Inl e)
               | Inr (v, st') \<Rightarrow> Some (Inr (v, st', False)))
            else bare_value n w loaded pe st) of
        None \<Rightarrow> None
      | Some (Inl e) \<Rightarrow> Some (Inl e)
      | Some (Inr (v, st', brk)) \<Rightarrow>
          if \<not> brk \<and> cursor st' < end_f st' \<and> at (data_f st') (cursor st') \<noteq> Some LF
          then lexValue_loop n w loaded pe st' (chunks @ v)
          else Some (Inr (chunks @ v, st')))"

definition lexValue :: "nat \<Rightarrow> world \<Rightarrow> process_env \<Rightarrow> lexer \<Rightarrow> (error + (string \<times> lexer)) option" where
  "lexValue n w pe st =
     (case match_eol_or_comment (drop (cursor st) (data_f st)) of
        Some m \<Rightarrow> Some (Inr ([], skipEmptyLines (moveCursor m st)))
      | None \<Rightarrow>
          if at (data_f st) (cursor st) = Some SP \<or> at (data_f st) (cursor st) = Some TAB then
            Some (Inl (createFormatError st ''Whitespace are not supported before the value''))
          else
            (case lexValue_loop n w (loadedVars pe) pe st [] of
               None \<Rightarrow> None
             | Some (Inl e) \<Rightarrow> Some (Inl e)
             | Some (Inr (v, st')) \<Rightarrow> Some (Inr (v, skipEmptyLines st'))))"

subsection \<open>parse\<close>

datatype lex_state = STATE_VARNAME | STATE_VALUE

fun parse_loop :: "nat \<Rightarrow> world \<Rightarrow> process_env \<Rightarrow> lexer \<Rightarrow> lex_state \<Rightarrow> string
    \<Rightarrow> (error + (lexer \<times> lex_state \<times> string)) option" where
  "parse_loop 0 w pe st state name = None"
| "parse_loop (Suc n) w pe st state name =
     (if cursor st < end_f st then
        (case state of
           STATE_VARNAME \<Rightarrow>
             (case lexVarname st of
                Inl e \<Rightarrow> Some (Inl e)
              | Inr (name', st') \<Rightarrow> parse_loop n w pe st' STATE_VALUE name')
         | STATE_VALUE \<Rightarrow>
             (case lexValue n w pe st of
                None \<Rightarrow> None
              | Some (Inl e) \<Rightarrow> Some (Inl e)
              | Some (Inr (v, st')) \<Rightarrow>
                  parse_loop n w pe (st'\<lparr>values_f := AList.update name v (values_f st')\<rparr>)
                    STATE_VARNAME name))
      else Some (Inr (st, state, name)))"

definition parse :: "nat \<Rightarrow> world \<Rightarrow> process_env \<Rightarrow> string \<Rightarrow> string
    \<Rightarrow> (error + (string \<times> string) list) option" where
  "parse n w pe dat filepath =
     (let dat' = (if CR \<in> set dat then replace2 CR LF [LF] dat else dat);
          st0 = \<lparr>path_f = filepath, data_f = dat', cursor = 0, lineno = 1,
                 end_f = length dat', values_f = []\<rparr>
      in case parse_loop n w pe (skipEmptyLines st0) STATE_VARNAME [] of
           None \<Rightarrow> None
         | Some (Inl e) \<Rightarrow> Some (Inl e)
         | Some (Inr (st, state, name)) \<Rightarrow>
             Some (Inr (if state = STATE_VALUE then AList.update name [] (values_f st)
                        else values_f st)))"

section \<open>Dotenv: the cascade (dotenv.ts, loadEnv)\<close>

definition populatePath :: "string \<Rightarrow> process \<Rightarrow> process" where
  "populatePath p ps = setenv SENTINEL_PATH p ps"

definition BOM :: string where
  "BOM = [CHR 0xEF, CHR 0xBB, CHR 0xBF]"

text \<open>
  \<^verbatim>\<open>loadBuffer\<close> tests the first three bytes of the buffer, parses the decoded text and
  populates. It raises before it writes, so it returns the error or the new process; the
  file and the values parsed from it are added to the history \<open>p_loaded\<close>.
\<close>

definition loadBuffer :: "nat \<Rightarrow> world \<Rightarrow> string \<Rightarrow> string \<Rightarrow> bool \<Rightarrow> process
    \<Rightarrow> (error + process) option" where
  "loadBuffer n w buf filepath overrideExisting ps =
     (if length buf \<ge> 3 \<and> take 3 buf = BOM then
        Some (Inl (FormatError
          ''Loading files starting with a byte-order-mark (BOM) is not supported.'' filepath 1 0))
      else case parse n w (p_env ps) (toString_utf8 w buf) filepath of
        None \<Rightarrow> None
      | Some (Inl e) \<Rightarrow> Some (Inl e)
      | Some (Inr parsed) \<Rightarrow>
          Some (Inr (populate parsed overrideExisting
                       (ps\<lparr>p_loaded := p_loaded ps @ [(filepath, parsed)]\<rparr>))))"

text \<open>
  \<^verbatim>\<open>loadEnv\<close>. The result is \<open>None\<close> when the fuel ran out in a parse; otherwise the exception
  raised, if any, and the process as the call leaves it (what was written before an
  exception stays written). \<open>this_envKey\<close> is the field \<^verbatim>\<open>this.envKey\<close>, used when the
  argument \<^verbatim>\<open>envKey\<close> is \<^verbatim>\<open>null\<close>.
\<close>

definition loadEnv :: "nat \<Rightarrow> world \<Rightarrow> string \<Rightarrow> string \<Rightarrow> string option \<Rightarrow> string
    \<Rightarrow> string list \<Rightarrow> bool \<Rightarrow> process \<Rightarrow> (error option \<times> process) option" where
  "loadEnv n w this_envKey p envKey defaultEnv testEnvs overrideExisting ps0 =
     (let ps = populatePath p ps0;
          k = (case envKey of None \<Rightarrow> this_envKey | Some e \<Rightarrow> e);
          primary = tryReadFile w p;
          dist = (if primary = None then tryReadFile w (p @ ''.dist'') else None)
      in
      case (case primary of
              Some buf \<Rightarrow> loadBuffer n w buf p overrideExisting ps
            | None \<Rightarrow>
                (case dist of
                   Some buf \<Rightarrow> loadBuffer n w buf (p @ ''.dist'') overrideExisting ps
                 | None \<Rightarrow> Some (Inl (PathError p)))) of
        None \<Rightarrow> None
      | Some (Inl e) \<Rightarrow> Some (Some e, ps)
      | Some (Inr ps1) \<Rightarrow>
          let (env, ps2) =
                (case p_env ps1 k of
                   None \<Rightarrow> (defaultEnv, populate [(k, defaultEnv)] overrideExisting ps1)
                 | Some e \<Rightarrow> (e, ps1));
              localBuf = (if env \<notin> set testEnvs then tryReadFile w (p @ ''.local'') else None)
          in
          case (case localBuf of
                  Some buf \<Rightarrow>
                    (case loadBuffer n w buf (p @ ''.local'') overrideExisting ps2 of
                       None \<Rightarrow> None
                     | Some (Inl e) \<Rightarrow> Some (Inl e)
                     | Some (Inr ps3) \<Rightarrow>
                         Some (Inr (case p_env ps3 k of Some e \<Rightarrow> e | None \<Rightarrow> env, ps3)))
                | None \<Rightarrow> Some (Inr (env, ps2))) of
            None \<Rightarrow> None
          | Some (Inl e) \<Rightarrow> Some (Some e, ps2)
          | Some (Inr (env', ps3)) \<Rightarrow>
              if env' = ''local'' then Some (None, ps3)
              else
                (case (case tryReadFile w (p @ ''.'' @ env') of
                         Some buf \<Rightarrow> loadBuffer n w buf (p @ ''.'' @ env') overrideExisting ps3
                       | None \<Rightarrow> Some (Inr ps3)) of
                   None \<Rightarrow> None
                 | Some (Inl e) \<Rightarrow> Some (Some e, ps3)
                 | Some (Inr ps4) \<Rightarrow>
                     (case (case tryReadFile w (p @ ''.'' @ env' @ ''.local'') of
                              Some buf \<Rightarrow>
                                loadBuffer n w buf (p @ ''.'' @ env' @ ''.local'')
                                  overrideExisting ps4
                            | None \<Rightarrow> Some (Inr ps4)) of
                        None \<Rightarrow> None
                      | Some (Inl e) \<Rightarrow> Some (Some e, ps4)
                      | Some (Inr ps5) \<Rightarrow> Some (None, ps5))))"

subsection \<open>The cascade as the specification words it\<close>

text \<open>
  The precedence list of the specification, step by step, to be compared with \<open>loadEnv\<close>.
  A step takes the process and gives the outcome of the cascade so far; \<open>and_then\<close> goes
  on to the next step unless an exception was raised or the fuel ran out.
  \<open>load_if_present\<close> is one entry of the list, ``populate from this file, if present'';
  \<open>env_of\<close> is the current environment name, \<^verbatim>\<open>process_env[envKey]\<close>.
\<close>

definition and_then :: "(error option \<times> process) option
    \<Rightarrow> (process \<Rightarrow> (error option \<times> process) option)
    \<Rightarrow> (error option \<times> process) option" where
  "and_then r f =
     (case r of
        None \<Rightarrow> None
      | Some (Some e, ps) \<Rightarrow> Some (Some e, ps)
      | Some (None, ps) \<Rightarrow> f ps)"

definition load_if_present :: "nat \<Rightarrow> world \<Rightarrow> string \<Rightarrow> bool \<Rightarrow> process
    \<Rightarrow> (error option \<times> process) option" where
  "load_if_present n w file overrideExisting ps =
     (case readFile w file of
        None \<Rightarrow> Some (None, ps)
      | Some buf \<Rightarrow>
          (case loadBuffer n w buf file overrideExisting ps of
             None \<Rightarrow> None
           | Some (Inl e) \<Rightarrow> Some (Some e, ps)
           | Some (Inr ps') \<Rightarrow> Some (None, ps')))"

definition env_of :: "string \<Rightarrow> process \<Rightarrow> string" where
  "env_of envKey ps = (case p_env ps envKey of Some e \<Rightarrow> e | None \<Rightarrow> [])"

definition loadEnv_spec :: "nat \<Rightarrow> world \<Rightarrow> string \<Rightarrow> string \<Rightarrow> string \<Rightarrow> string list \<Rightarrow> bool
    \<Rightarrow> process \<Rightarrow> (error option \<times> process) option" where
  "loadEnv_spec n w base envKey defaultEnv testEnvs overrideExisting ps0 =
     and_then
       \<comment> \<open>1. base, or base.dist if base is absent; a path error if neither exists\<close>
       (if readFile w base \<noteq> None
        then load_if_present n w base overrideExisting (setenv SENTINEL_PATH base ps0)
        else if readFile w (base @ ''.dist'') \<noteq> None
        then load_if_present n w (base @ ''.dist'') overrideExisting (setenv SENTINEL_PATH base ps0)
        else Some (Some (PathError base), setenv SENTINEL_PATH base ps0))
       (\<lambda>ps1. and_then
          \<comment> \<open>2. if the env key is unset, set it to defaultEnv via populate\<close>
          (Some (None, if p_env ps1 envKey = None
                       then populate [(envKey, defaultEnv)] overrideExisting ps1 else ps1))
          (\<lambda>ps2. and_then
             \<comment> \<open>3. if the env is not in testEnvs: base.local, if present\<close>
             (if env_of envKey ps2 \<notin> set testEnvs
              then load_if_present n w (base @ ''.local'') overrideExisting ps2
              else Some (None, ps2))
             (\<lambda>ps3.
                \<comment> \<open>4. if the env equals local: stop\<close>
                if env_of envKey ps3 = ''local'' then Some (None, ps3)
                else and_then
                  \<comment> \<open>5. base.env, if present\<close>
                  (load_if_present n w (base @ ''.'' @ env_of envKey ps3) overrideExisting ps3)
                  \<comment> \<open>6. base.env.local, if present\<close>
                  (\<lambda>ps4. load_if_present n w (base @ ''.'' @ env_of envKey ps3 @ ''.local'')
                            overrideExisting ps4))))"

section \<open>Predicates on names, parse results and cascades\<close>

text \<open>
  \<open>keys_valid\<close>: every key is a variable name of the lexer's pattern. \<open>clean_name\<close>: a name
  that survives the comma-joined round trip through \<^verbatim>\<open>NODE_DOTENV_VARS\<close>. \<open>sentinel_tracks\<close>:
  the later process state extends the assignments of the earlier one, every key assigned in
  between is a sentinel key or is in the final sentinel set, and the sentinel set has only
  grown. \<open>new_loaded\<close>: the files the later state has parsed since the earlier one, each
  with its values. \<open>cascade_tracks\<close>: the later state extends the parse history of the
  earlier one, and \<open>sentinel_tracks\<close> holds if none of the files parsed in between assigns
  \<^verbatim>\<open>NODE_DOTENV_VARS\<close>.
\<close>

definition keys_valid :: "(string \<times> string) list \<Rightarrow> bool" where
  "keys_valid vals = (\<forall>k \<in> fst ` set vals. match_varname k = Some k)"

definition clean_name :: "string \<Rightarrow> bool" where
  "clean_name x = (x \<noteq> [] \<and> CHR '','' \<notin> set x \<and> js_trim x = x)"

definition sentinel_tracks :: "process \<Rightarrow> process \<Rightarrow> bool" where
  "sentinel_tracks ps ps' =
     ((\<exists>new. p_writes ps' = p_writes ps @ new \<and>
         (\<forall>x \<in> fst ` set new. x = SENTINEL_VARS \<or> x = SENTINEL_PATH
                                   \<or> x \<in> set (loadedVars (p_env ps')))) \<and>
      set (loadedVars (p_env ps)) \<subseteq> set (loadedVars (p_env ps')))"

definition new_loaded :: "process \<Rightarrow> process \<Rightarrow> (string \<times> (string \<times> string) list) list" where
  "new_loaded ps ps' = drop (length (p_loaded ps)) (p_loaded ps')"

definition cascade_tracks :: "process \<Rightarrow> process \<Rightarrow> bool" where
  "cascade_tracks ps ps' =
     (\<exists>nl. p_loaded ps' = p_loaded ps @ nl \<and>
        ((\<forall>fv \<in> set nl. SENTINEL_VARS \<notin> fst ` set (snd fv)) \<longrightarrow> sentinel_tracks ps ps'))"

section \<open>Placeholders (resolvePlaceholders and coerceEnvValue, the variant with typed placeholders)\<close>

text \<open>
  The two patterns are \<^verbatim>\<open>%env\((?:(string|number|boolean):)?([A-Z0-9_]+)\)%\<close>, with the flags
  \<^verbatim>\<open>gi\<close> for \<^verbatim>\<open>ENV_PLACEHOLDER_ANY\<close> and anchored by \<^verbatim>\<open>^\<close> and \<^verbatim>\<open>$\<close> with the flag \<^verbatim>\<open>i\<close> for
  \<^verbatim>\<open>ENV_PLACEHOLDER_FULL\<close>. Under the flag \<^verbatim>\<open>i\<close> (without \<^verbatim>\<open>u\<close>) a letter of the pattern matches
  its two ASCII cases and nothing else, so the class \<^verbatim>\<open>[A-Z0-9_]\<close> is \<open>is_word_char\<close> and a
  literal of the pattern is compared after \<open>ascii_lower\<close>.
\<close>

definition is_word_char :: "char \<Rightarrow> bool" where
  "is_word_char c =
     (c \<in> set ''ABCDEFGHIJKLMNOPQRSTUVWXYZabcdefghijklmnopqrstuvwxyz0123456789_'')"

definition ascii_lower :: "char \<Rightarrow> char" where
  "ascii_lower c =
     (case map_of (zip ''ABCDEFGHIJKLMNOPQRSTUVWXYZ'' ''abcdefghijklmnopqrstuvwxyz'') c of
        Some l \<Rightarrow> l
      | None \<Rightarrow> c)"

text \<open>
  \<^verbatim>\<open>String.prototype.toLowerCase\<close> on code units below 256: the capital letters of ASCII and
  of Latin-1 (\<^verbatim>\<open>0xC0\<close> to \<^verbatim>\<open>0xDE\<close>, the multiplication sign \<^verbatim>\<open>0xD7\<close> apart) move up by 32.
\<close>

definition js_toLowerCase :: "string \<Rightarrow> string" where
  "js_toLowerCase s =
     map (\<lambda>c. let n = (of_char c :: nat) in
               if (65 \<le> n \<and> n \<le> 90) \<or> (192 \<le> n \<and> n \<le> 222 \<and> n \<noteq> 215)
               then char_of (n + 32) else c) s"

text \<open>
  \<open>ci_prefix pat s\<close>: the literal \<open>pat\<close> (given in lower case) matched at the start of \<open>s\<close>
  without regard to case; the result is the rest of \<open>s\<close>.
\<close>

definition ci_prefix :: "string \<Rightarrow> string \<Rightarrow> string option" where
  "ci_prefix pat s =
     (if length pat \<le> length s \<and> map ascii_lower (take (length pat) s) = pat
      then Some (drop (length pat) s) else None)"

text \<open>
  The optional group \<^verbatim>\<open>(?:(string|number|boolean):)?\<close>: the captured type as written in
  \<open>s\<close>, and the rest after the colon. The three alternatives start with different
  letters, so at most one of them matches.
\<close>

definition match_type :: "string \<Rightarrow> (string \<times> string) option" where
  "match_type s =
     (case ci_prefix ''string:'' s of
        Some r \<Rightarrow> Some (take 6 s, r)
      | None \<Rightarrow>
     (case ci_prefix ''number:'' s of
        Some r \<Rightarrow> Some (take 6 s, r)
      | None \<Rightarrow>
     (case ci_prefix ''boolean:'' s of
        Some r \<Rightarrow> Some (take 7 s, r)
      | None \<Rightarrow> None)))"

text \<open>
  The placeholder pattern matched at the start of \<open>s\<close>: the captured type (\<open>None\<close> for
  \<^verbatim>\<open>undefined\<close>), the captured name and the rest of \<open>s\<close> after \<^verbatim>\<open>)%\<close>. Backtracking finds
  nothing else: the name is followed by \<^verbatim>\<open>)\<close>, which is not in the class, so a shorter name
  cannot match; and when the type group has matched, the attempt without the group reads
  the type as a name and then meets the colon.
\<close>

definition match_placeholder :: "string \<Rightarrow> (string option \<times> string \<times> string) option" where
  "match_placeholder s =
     (case ci_prefix ''%env('' s of
        None \<Rightarrow> None
      | Some r \<Rightarrow>
          (let (rawType, r1) = (case match_type r of
                                  Some (t, r') \<Rightarrow> (Some t, r')
                                | None \<Rightarrow> (None, r));
               name = takeWhile is_word_char r1;
               r2 = dropWhile is_word_char r1
           in if name \<noteq> [] \<and> take 2 r2 = '')%'' then Some (rawType, name, drop 2 r2)
              else None))"

text \<open>
  \<open>coerceEnvValue\<close> returns a string, a number or a boolean. \<^verbatim>\<open>Number(raw)\<close> and
  \<^verbatim>\<open>String(num)\<close> are functions of the JavaScript runtime on floating-point numbers; they
  are the parameters \<open>toNumber\<close> and \<open>numToString\<close> of the model, over any type \<open>'n\<close> of
  numbers.
\<close>

datatype 'n coerced = CString string | CNumber 'n | CBoolean bool

definition coerceEnvValue :: "(string \<Rightarrow> 'n) \<Rightarrow> string \<Rightarrow> string option \<Rightarrow> 'n coerced" where
  "coerceEnvValue toNumber raw ty =
     (if ty = None \<or> ty = Some ''string'' then CString raw
      else if ty = Some ''number'' then CNumber (toNumber raw)
      else if ty = Some ''boolean'' then
        (let norm = js_toLowerCase (js_trim raw) in
         if norm = ''true'' \<or> norm = ''1'' \<or> norm = ''yes'' \<or> norm = ''y'' \<or> norm = ''on''
         then CBoolean True
         else if norm = ''false'' \<or> norm = ''0'' \<or> norm = ''no'' \<or> norm = ''n'' \<or> norm = ''off''
         then CBoolean False
         else CBoolean (norm \<noteq> []))
      else CString raw)"

fun tree_of :: "'n coerced \<Rightarrow> 'n tree" where
  "tree_of (CString s) = TStr s"
| "tree_of (CNumber n) = TNum n"
| "tree_of (CBoolean b) = TBool b"

text \<open>\<^verbatim>\<open>String(coerced)\<close>.\<close>

fun js_String :: "('n \<Rightarrow> string) \<Rightarrow> 'n coerced \<Rightarrow> string" where
  "js_String numToString (CString s) = s"
| "js_String numToString (CNumber n) = numToString n"
| "js_String numToString (CBoolean b) = (if b then ''true'' else ''false'')"

text \<open>
  \<^verbatim>\<open>value.replace(ENV_PLACEHOLDER_ANY, callback)\<close>: the matches are found from left to
  right, each is replaced by \<^verbatim>\<open>String(coerceEnvValue(accessor(name), type))\<close>, and the text
  between them is kept. The accessor is \<open>read\<close> without options; it records the name and
  raises when the variable is unset, which ends the replacement.
\<close>

function replace_placeholders :: "(string \<Rightarrow> 'n) \<Rightarrow> ('n \<Rightarrow> string) \<Rightarrow> process_env \<Rightarrow> string
    \<Rightarrow> string list \<Rightarrow> (error + string) \<times> string list" where
  "replace_placeholders toNumber numToString pe s registered =
     (case s of
        [] \<Rightarrow> (Inr [], registered)
      | c # r \<Rightarrow>
          (case match_placeholder s of
             None \<Rightarrow>
               (case replace_placeholders toNumber numToString pe r registered of
                  (Inl e, reg') \<Rightarrow> (Inl e, reg')
                | (Inr out, reg') \<Rightarrow> (Inr (c # out), reg'))
           | Some (rawType, name, rest) \<Rightarrow>
               (case read name None pe registered of
                  (Inl e, reg1) \<Rightarrow> (Inl e, reg1)
                | (Inr raw, reg1) \<Rightarrow>
                    (case replace_placeholders toNumber numToString pe rest reg1 of
                       (Inl e, reg2) \<Rightarrow> (Inl e, reg2)
                     | (Inr out, reg2) \<Rightarrow>
                         (Inr (js_String numToString
                                 (coerceEnvValue toNumber raw (map_option js_toLowerCase rawType))
                               @ out), reg2)))))"
  by pat_completeness auto

termination
proof -
  have len: "length r = length s - length pat" if "ci_prefix pat s = Some r" for pat s r
    using that by (auto simp: ci_prefix_def split: if_splits)
  have shorter: "length rest < length s"
    if m: "match_placeholder s = Some (rawType, name, rest)" for s rawType name rest
  proof -
    obtain r where r: "ci_prefix ''%env('' s = Some r"
      using m by (auto simp: match_placeholder_def split: option.splits)
    define r1 where "r1 = (case match_type r of Some (t, r') \<Rightarrow> r' | None \<Rightarrow> r)"
    have l1: "length r1 \<le> length r"
      by (auto simp: r1_def match_type_def dest!: len split: option.splits)
    have "rest = drop 2 (dropWhile is_word_char r1)"
      using m r by (auto simp: match_placeholder_def r1_def Let_def split: option.splits if_splits)
    then have "length rest \<le> length r1"
      using length_dropWhile_le[of is_word_char r1] by simp
    moreover have "length r < length s" using len[OF r] r
      by (auto simp: ci_prefix_def split: if_splits)
    ultimately show ?thesis using l1 by simp
  qed
  show ?thesis
    by (relation "measure (\<lambda>(N, S, pe, s, reg). length s)") (auto dest: shorter)
qed

declare replace_placeholders.simps [simp del]

text \<open>
  \<open>resolvePlaceholders\<close> on a tree. A string that the anchored pattern matches becomes the
  coerced value itself; any other string has its placeholders replaced. Arrays and plain
  objects are rebuilt entry by entry, in order, a plain object by assignments to a new
  object literal; any other value is returned as it is. The set of registered names is
  threaded through, and an exception ends the traversal.
\<close>

fun resolvePlaceholders :: "(string \<Rightarrow> 'n) \<Rightarrow> ('n \<Rightarrow> string) \<Rightarrow> process_env \<Rightarrow> 'n tree
    \<Rightarrow> string list \<Rightarrow> (error + 'n tree) \<times> string list"
and resolve_array :: "(string \<Rightarrow> 'n) \<Rightarrow> ('n \<Rightarrow> string) \<Rightarrow> process_env \<Rightarrow> 'n tree list
    \<Rightarrow> string list \<Rightarrow> (error + 'n tree list) \<times> string list"
and resolve_object :: "(string \<Rightarrow> 'n) \<Rightarrow> ('n \<Rightarrow> string) \<Rightarrow> process_env
    \<Rightarrow> (string \<times> 'n tree) list \<Rightarrow> 'n tree \<times> (string \<times> 'n tree) list
    \<Rightarrow> string list \<Rightarrow> (error + 'n tree \<times> (string \<times> 'n tree) list) \<times> string list" where
  "resolvePlaceholders toNumber numToString pe (TStr s) registered =
     (case match_placeholder s of
        Some (rawType, name, []) \<Rightarrow>
          (case read name None pe registered of
             (Inl e, reg1) \<Rightarrow> (Inl e, reg1)
           | (Inr raw, reg1) \<Rightarrow>
               (Inr (tree_of (coerceEnvValue toNumber raw (map_option js_toLowerCase rawType))),
                reg1))
      | _ \<Rightarrow>
          (case replace_placeholders toNumber numToString pe s registered of
             (Inl e, reg1) \<Rightarrow> (Inl e, reg1)
           | (Inr out, reg1) \<Rightarrow> (Inr (TStr out), reg1)))"
| "resolvePlaceholders toNumber numToString pe (TArr xs) registered =
     (case resolve_array toNumber numToString pe xs registered of
        (Inl e, reg1) \<Rightarrow> (Inl e, reg1)
      | (Inr out, reg1) \<Rightarrow> (Inr (TArr out), reg1))"
| "resolvePlaceholders toNumber numToString pe (TObj p kvs) registered =
     (if p = TNull \<or> p = TObjectPrototype then
        (case resolve_object toNumber numToString pe kvs empty_object registered of
           (Inl e, reg1) \<Rightarrow> (Inl e, reg1)
         | (Inr out, reg1) \<Rightarrow> (Inr (object_of out), reg1))
      else (Inr (TObj p kvs), registered))"
| "resolvePlaceholders toNumber numToString pe TObjectPrototype registered =
     (Inr (object_of empty_object), registered)"
| "resolvePlaceholders toNumber numToString pe (TFun k) registered = (Inr (TFun k), registered)"
| "resolvePlaceholders toNumber numToString pe TUndefined registered = (Inr TUndefined, registered)"
| "resolvePlaceholders toNumber numToString pe TNull registered = (Inr TNull, registered)"
| "resolvePlaceholders toNumber numToString pe (TBool b) registered = (Inr (TBool b), registered)"
| "resolvePlaceholders toNumber numToString pe (TNum n) registered = (Inr (TNum n), registered)"
| "resolve_array toNumber numToString pe [] registered = (Inr [], registered)"
| "resolve_array toNumber numToString pe (x # xs) registered =
     (case resolvePlaceholders toNumber numToString pe x registered of
        (Inl e, reg1) \<Rightarrow> (Inl e, reg1)
      | (Inr y, reg1) \<Rightarrow>
          (case resolve_array toNumber numToString pe xs reg1 of
             (Inl e, reg2) \<Rightarrow> (Inl e, reg2)
           | (Inr ys, reg2) \<Rightarrow> (Inr (y # ys), reg2)))"
| "resolve_object toNumber numToString pe [] result registered = (Inr result, registered)"
| "resolve_object toNumber numToString pe ((k, v) # kvs) result registered =
     (case resolvePlaceholders toNumber numToString pe v registered of
        (Inl e, reg1) \<Rightarrow> (Inl e, reg1)
      | (Inr y, reg1) \<Rightarrow>
          resolve_object toNumber numToString pe kvs (js_assign k y result) reg1)"

text \<open>
  The text of a placeholder, as the specification writes it: \<^verbatim>\<open>%env(NAME)%\<close> or
  \<^verbatim>\<open>%env(TYPE:NAME)%\<close>.
\<close>

definition placeholder :: "string option \<Rightarrow> string \<Rightarrow> string" where
  "placeholder ty name =
     ''%env('' @ (case ty of None \<Rightarrow> [] | Some t \<Rightarrow> t @ '':'') @ name @ '')%''"

section \<open>Properties of the EnvAccessor\<close>

text \<open>
  Claim C10. Every lookup through the accessor adds the looked-up name to the registered
  set before it reads the process environment. So after the callable read of \<open>name\<close>
  (with or without a default, returning or raising) and after \<open>optional name\<close>,
  \<open>has name\<close> is true in whatever state the process environment is; and when the variable
  is unset and no default is given, the read raises \<open>MissingEnv\<close> and \<open>optional\<close>
  returns nothing.
\<close>

theorem lookup_registers_name:
  "has name pe' (snd (read name dflt pe registered)) \<and>
   has name pe' (snd (optional name pe registered)) \<and>
   (pe name = None \<longrightarrow>
      fst (read name None pe registered) = Inl (MissingEnv name) \<and>
      fst (optional name pe registered) = None)"
  by (auto simp: has_def read_def optional_def set_add_def Let_def split: option.splits)

theorem lookup_registers_name_witness:
  "Map.empty ''PORT'' = None \<and>
   has ''PORT'' Map.empty (snd (read ''PORT'' None Map.empty [])) \<and>
   has ''PORT'' Map.empty (snd (optional ''PORT'' Map.empty [])) \<and>
   fst (read ''PORT'' None Map.empty []) = Inl (MissingEnv ''PORT'') \<and>
   fst (optional ''PORT'' Map.empty []) = None"
  using lookup_registers_name [of "''PORT''" Map.empty None Map.empty "[]"] by simp

section \<open>Properties of the tree merger\<close>


lemma update_fresh: "k \<notin> fst ` set al \<Longrightarrow> AList.update k v al = al @ [(k, v)]"
  by (induction al) auto

lemma js_assign_plain:
  "k \<noteq> ''__proto__'' \<Longrightarrow> js_assign k v (p, kvs) = (p, AList.update k v kvs)"
  by (simp add: js_assign_def)

lemma fold_assign_fresh:
  "distinct (map fst (acc @ kvs)) \<Longrightarrow> ''__proto__'' \<notin> fst ` set kvs \<Longrightarrow>
   fold (\<lambda>kv dst. js_assign (fst kv) (g kv) dst) kvs (p, acc)
     = (p, acc @ map (\<lambda>kv. (fst kv, g kv)) kvs)"
proof (induction kvs arbitrary: acc)
  case Nil
  then show ?case by simp
next
  case (Cons kv kvs)
  have fresh: "fst kv \<notin> fst ` set acc" using Cons.prems by auto
  have np: "fst kv \<noteq> ''__proto__''" using Cons.prems by auto
  have d: "distinct (map fst ((acc @ [(fst kv, g kv)]) @ kvs))" using Cons.prems by auto
  have n: "''__proto__'' \<notin> fst ` set kvs" using Cons.prems by auto
  from Cons.IH[OF d n] show ?case by (simp add: js_assign_plain[OF np] update_fresh[OF fresh])
qed

lemma proto_is_key: "''__proto__'' \<in> set OBJECT_PROTOTYPE_KEYS"
  by (simp add: OBJECT_PROTOTYPE_KEYS_def)

text \<open>The clone of a plain object with ordinary keys: a new object with the cloned entries.\<close>

lemma cloneValue_entries:
  assumes "p = TNull \<or> p = TObjectPrototype" "ordinary_keys (TObj p kvs)"
  shows "cloneValue (TObj p kvs)
       = TObj TObjectPrototype (map (\<lambda>kv. (fst kv, cloneValue (snd kv))) kvs)"
proof -
  have d: "distinct (map fst ([] @ kvs))" using assms by simp
  have n: "''__proto__'' \<notin> fst ` set kvs" using assms proto_is_key by auto
  show ?thesis
    using assms(1) fold_assign_fresh[OF d n, of "\<lambda>kv. cloneValue (snd kv)" TObjectPrototype]
    by (simp add: empty_object_def object_of_def)
qed

lemma cloneValue_idem:
  "ordinary_keys t \<Longrightarrow> cloneValue (cloneValue t) = cloneValue t \<and> ordinary_keys (cloneValue t)"
proof (induction t rule: cloneValue.induct)
  case (1 xs)
  then show ?case by simp
next
  case (2 p src)
  show ?case
  proof (cases "p = TNull \<or> p = TObjectPrototype")
    case True
    let ?c = "map (\<lambda>kv. (fst kv, cloneValue (snd kv))) src"
    have c: "cloneValue (TObj p src) = TObj TObjectPrototype ?c"
      using True "2.prems" by (rule cloneValue_entries)
    have IH: "cloneValue (cloneValue (snd kv)) = cloneValue (snd kv) \<and> ordinary_keys (cloneValue (snd kv))"
      if "kv \<in> set src" for kv
      using "2.IH"[OF True that] "2.prems" True that by auto
    have o: "ordinary_keys (TObj TObjectPrototype ?c)"
      using "2.prems" True IH by (auto simp: comp_def)
    have "cloneValue (TObj TObjectPrototype ?c)
        = TObj TObjectPrototype (map (\<lambda>kv. (fst kv, cloneValue (snd kv))) ?c)"
      using o by (intro cloneValue_entries) simp_all
    also have "map (\<lambda>kv. (fst kv, cloneValue (snd kv))) ?c = ?c"
      using IH by (simp add: comp_def)
    finally show ?thesis using c o by simp
  next
    case False
    then show ?thesis by simp
  qed
next
  case 3
  show ?case by (simp add: empty_object_def object_of_def)
qed simp_all

lemma cloneValue_twice: "ordinary_keys t \<Longrightarrow> cloneValue (cloneValue t) = cloneValue t"
  using cloneValue_idem by blast

lemma cloneValue_ordinary: "ordinary_keys t \<Longrightarrow> ordinary_keys (cloneValue t)"
  using cloneValue_idem by blast

lemma keys_of_entries: "keys_of t = fst ` set (entries t)"
  by (cases t) auto

lemma plain_entries:
  "isPlainObject t \<Longrightarrow> ordinary_keys t \<Longrightarrow>
   distinct (map fst (entries t)) \<and>
   (\<forall>kv \<in> set (entries t). fst kv \<notin> set OBJECT_PROTOTYPE_KEYS \<and> ordinary_keys (snd kv))"
  by (cases t) auto

lemma js_in_fresh:
  "isPlainObject t \<Longrightarrow> k \<notin> keys_of t \<Longrightarrow> k \<notin> set OBJECT_PROTOTYPE_KEYS \<Longrightarrow> \<not> js_in k t"
  by (cases t) (auto simp: map_of_eq_None_iff image_iff)

lemma merge_disjoint:
  assumes pa: "isPlainObject a" and pb: "isPlainObject b"
    and oa: "ordinary_keys a" and ob: "ordinary_keys b"
    and dj: "keys_of a \<inter> keys_of b = {}"
  shows "mergeValues a b
       = TObj TObjectPrototype (map (\<lambda>kv. (fst kv, cloneValue (snd kv))) (entries a @ entries b))"
proof -
  let ?cl = "\<lambda>kv. (fst kv, cloneValue (snd kv))"
  note ea = plain_entries[OF pa oa] and eb = plain_entries[OF pb ob]
  have na: "''__proto__'' \<notin> fst ` set (entries a)" and nb: "''__proto__'' \<notin> fst ` set (entries b)"
    using ea eb proto_is_key by auto
  have da: "distinct (map fst ([] @ entries a))" using ea by simp
  have c: "fold (\<lambda>kv result. js_assign (fst kv) (cloneValue (snd kv)) result) (entries a) empty_object
      = (TObjectPrototype, map ?cl (entries a))"
    using fold_assign_fresh[OF da na, of "\<lambda>kv. cloneValue (snd kv)" TObjectPrototype]
    by (simp add: empty_object_def)
  have d: "distinct (map fst (map ?cl (entries a) @ entries b))"
    using ea eb dj by (auto simp: keys_of_entries comp_def)
  let ?g = "\<lambda>kv. if js_in (fst kv) a then mergeValues (js_get (fst kv) a) (snd kv)
                 else cloneValue (snd kv)"
  have "map (\<lambda>kv. (fst kv, ?g kv)) (entries b) = map ?cl (entries b)"
  proof (rule map_cong[OF refl])
    fix kv assume m: "kv \<in> set (entries b)"
    then have "fst kv \<notin> keys_of a" using dj by (auto simp: keys_of_entries)
    moreover have "fst kv \<notin> set OBJECT_PROTOTYPE_KEYS" using eb m by auto
    ultimately have nin: "\<not> js_in (fst kv) a" using pa by (intro js_in_fresh)
    show "(fst kv, ?g kv) = ?cl kv" by (simp only: if_not_P[OF nin])
  qed
  then have f: "fold (\<lambda>kv result. js_assign (fst kv) (?g kv) result) (entries b)
                  (TObjectPrototype, map ?cl (entries a))
      = (TObjectPrototype, map ?cl (entries a) @ map ?cl (entries b))"
    using fold_assign_fresh[OF d nb, of ?g TObjectPrototype] by simp
  have nu: "b \<noteq> TUndefined" "a \<noteq> TUndefined" "\<not> (is_arr a \<and> is_arr b)"
    using pa pb by (cases a; cases b; simp)+
  show ?thesis
    by (subst mergeValues.simps)
       (simp only: nu pa pb if_False if_True simp_thms c f object_of_def fst_conv snd_conv map_append)
qed

lemma merge_assoc:
  assumes "isPlainObject a" "isPlainObject b" "isPlainObject c"
    "ordinary_keys a" "ordinary_keys b" "ordinary_keys c"
    "keys_of a \<inter> keys_of b = {}" "keys_of a \<inter> keys_of c = {}" "keys_of b \<inter> keys_of c = {}"
  shows "mergeValues (mergeValues a b) c = mergeValues a (mergeValues b c)"
proof -
  let ?cl = "\<lambda>kv. (fst kv, cloneValue (snd kv))"
  note ea = plain_entries[OF assms(1,4)] and eb = plain_entries[OF assms(2,5)]
    and ec = plain_entries[OF assms(3,6)]
  have idem: "map ?cl (map ?cl (entries t)) = map ?cl (entries t)"
    if "isPlainObject t" "ordinary_keys t" for t :: "'a tree"
    using plain_entries[OF that] cloneValue_twice by (auto simp: comp_def)
  have ok: "ordinary_keys (TObj TObjectPrototype (map ?cl (entries s) @ map ?cl (entries t)))"
    if "isPlainObject s" "ordinary_keys s" "isPlainObject t" "ordinary_keys t"
       "keys_of s \<inter> keys_of t = {}" for s t :: "'a tree"
  proof -
    note es = plain_entries[OF that(1,2)] and et = plain_entries[OF that(3,4)]
    have "distinct (map fst (entries s) @ map fst (entries t))"
      using es et that(5) by (simp add: keys_of_entries)
    then have d: "distinct (map fst (map ?cl (entries s) @ map ?cl (entries t)))"
      by (simp add: comp_def)
    have "\<forall>kv \<in> set (map ?cl (entries s) @ map ?cl (entries t)).
            fst kv \<notin> set OBJECT_PROTOTYPE_KEYS \<and> ordinary_keys (snd kv)"
      using es et cloneValue_ordinary by fastforce
    then show ?thesis using d by (simp only: ordinary_keys.simps simp_thms)
  qed
  have ks: "keys_of (TObj TObjectPrototype (map ?cl (entries s) @ map ?cl (entries t)))
                 = keys_of s \<union> keys_of t" for s t :: "'a tree"
    by (simp add: keys_of_entries image_Un image_image)
  have ab: "mergeValues a b = TObj TObjectPrototype (map ?cl (entries a) @ map ?cl (entries b))"
    using merge_disjoint[OF assms(1,2,4,5,7)] by simp
  have bc: "mergeValues b c = TObj TObjectPrototype (map ?cl (entries b) @ map ?cl (entries c))"
    using merge_disjoint[OF assms(2,3,5,6,9)] by simp
  have merged: "mergeValues (TObj TObjectPrototype (map ?cl (entries s) @ map ?cl (entries t))) u
      = TObj TObjectPrototype (map ?cl (entries s) @ map ?cl (entries t) @ map ?cl (entries u))"
    if "isPlainObject s" "ordinary_keys s" "isPlainObject t" "ordinary_keys t"
       "isPlainObject u" "ordinary_keys u"
       "keys_of s \<inter> keys_of t = {}" "keys_of s \<inter> keys_of u = {}" "keys_of t \<inter> keys_of u = {}"
    for s t u :: "'a tree"
  proof -
    let ?x = "TObj TObjectPrototype (map ?cl (entries s) @ map ?cl (entries t))"
    have px: "isPlainObject ?x" by simp
    have dj: "keys_of ?x \<inter> keys_of u = {}" unfolding ks using that(8,9) by blast
    have "mergeValues ?x u = TObj TObjectPrototype (map ?cl (entries ?x @ entries u))"
      by (rule merge_disjoint[OF px that(5) ok[OF that(1,2,3,4,7)] that(6) dj])
    also have "map ?cl (entries ?x @ entries u)
        = map ?cl (map ?cl (entries s)) @ map ?cl (map ?cl (entries t)) @ map ?cl (entries u)"
      by (simp only: entries.simps map_append append_assoc)
    finally show ?thesis by (simp only: idem[OF that(1,2)] idem[OF that(3,4)])
  qed
  have merged': "mergeValues s (TObj TObjectPrototype (map ?cl (entries t) @ map ?cl (entries u)))
      = TObj TObjectPrototype (map ?cl (entries s) @ map ?cl (entries t) @ map ?cl (entries u))"
    if "isPlainObject s" "ordinary_keys s" "isPlainObject t" "ordinary_keys t"
       "isPlainObject u" "ordinary_keys u"
       "keys_of s \<inter> keys_of t = {}" "keys_of s \<inter> keys_of u = {}" "keys_of t \<inter> keys_of u = {}"
    for s t u :: "'a tree"
  proof -
    let ?x = "TObj TObjectPrototype (map ?cl (entries t) @ map ?cl (entries u))"
    have px: "isPlainObject ?x" by simp
    have dj: "keys_of s \<inter> keys_of ?x = {}" unfolding ks using that(7,8) by blast
    have "mergeValues s ?x = TObj TObjectPrototype (map ?cl (entries s @ entries ?x))"
      by (rule merge_disjoint[OF that(1) px that(2) ok[OF that(3,4,5,6,9)] dj])
    also have "map ?cl (entries s @ entries ?x)
        = map ?cl (entries s) @ map ?cl (map ?cl (entries t)) @ map ?cl (map ?cl (entries u))"
      by (simp only: entries.simps map_append append_assoc)
    finally show ?thesis by (simp only: idem[OF that(3,4)] idem[OF that(5,6)])
  qed
  show ?thesis
    unfolding ab bc merged[OF assms(1,4,2,5,3,6,7,8,9)] merged'[OF assms(1,4,2,5,3,6,7,8,9)] ..

qed

text \<open>
  The claim C8 as it is worded fails when one of the three trees is not an object: arrays
  have no keys, an array replaces what was merged before it, so the two groupings differ.
\<close>

theorem merge_array_in_the_middle_counterexample:
  "keys_of (TObj TObjectPrototype [(''a'', TNum (1::int))]) \<inter> keys_of (TArr [TNum 1]) = {} \<and>
   keys_of (TObj TObjectPrototype [(''a'', TNum (1::int))]) \<inter> keys_of (TObj TObjectPrototype [(''c'', TNum (1::int))]) = {} \<and>
   keys_of (TArr [TNum (1::int)]) \<inter> keys_of (TObj TObjectPrototype [(''c'', TNum (1::int))]) = {} \<and>
   mergeValues (mergeValues (TObj TObjectPrototype [(''a'', TNum (1::int))]) (TArr [TNum 1])) (TObj TObjectPrototype [(''c'', TNum (1::int))]) = TObj TObjectPrototype [(''c'', TNum 1)] \<and>
   mergeValues (TObj TObjectPrototype [(''a'', TNum (1::int))]) (mergeValues (TArr [TNum 1]) (TObj TObjectPrototype [(''c'', TNum (1::int))]))
     = TObj TObjectPrototype [(''a'', TNum 1), (''c'', TNum 1)] \<and>
   mergeValues (mergeValues (TObj TObjectPrototype [(''a'', TNum (1::int))]) (TArr [TNum 1])) (TObj TObjectPrototype [(''c'', TNum (1::int))])
     \<noteq> mergeValues (TObj TObjectPrototype [(''a'', TNum (1::int))]) (mergeValues (TArr [TNum 1]) (TObj TObjectPrototype [(''c'', TNum (1::int))]))"
proof -
  have l: "mergeValues (mergeValues (TObj TObjectPrototype [(''a'', TNum (1::int))]) (TArr [TNum 1])) (TObj TObjectPrototype [(''c'', TNum (1::int))]) = TObj TObjectPrototype [(''c'', TNum 1)]"
    by code_simp
  have r: "mergeValues (TObj TObjectPrototype [(''a'', TNum (1::int))]) (mergeValues (TArr [TNum 1]) (TObj TObjectPrototype [(''c'', TNum (1::int))]))
     = TObj TObjectPrototype [(''a'', TNum 1), (''c'', TNum 1)]"
    by code_simp
  show ?thesis unfolding l r by simp
qed

text \<open>
  Claim C8, as amended. Merging a tree with an absent value, on either side, gives the
  clone of the tree; and for three plain objects whose key sets are pairwise disjoint,
  merging is associative. The statement leaves out the objects that have, at some depth, an
  own key that names a property of \<^verbatim>\<open>Object.prototype\<close>.
\<close>

theorem mergeValues_identity_assoc:
  "mergeValues t TUndefined = cloneValue t \<and>
   mergeValues TUndefined t = cloneValue t \<and>
   (isPlainObject a \<and> isPlainObject b \<and> isPlainObject c \<and>
    ordinary_keys a \<and> ordinary_keys b \<and> ordinary_keys c \<and>
    keys_of a \<inter> keys_of b = {} \<and> keys_of a \<inter> keys_of c = {} \<and> keys_of b \<inter> keys_of c = {}
    \<longrightarrow> mergeValues (mergeValues a b) c = mergeValues a (mergeValues b c))"
proof -
  have "mergeValues t TUndefined = cloneValue t \<and> mergeValues TUndefined t = cloneValue t"
    by (subst mergeValues.simps, subst (2) mergeValues.simps) (cases t; simp)
  then show ?thesis using merge_assoc[of a b c] by simp
qed

theorem mergeValues_identity_assoc_witness:
  "isPlainObject (TObj TObjectPrototype [(''a'', TNum (1::int))]) \<and> isPlainObject (TObj TNull [(''b'', TArr [TStr ''x''])]) \<and> isPlainObject (TObj TObjectPrototype [(''c'', TObj TObjectPrototype [(''d'', TNull)])]) \<and>
   ordinary_keys (TObj TObjectPrototype [(''a'', TNum (1::int))]) \<and> ordinary_keys (TObj TNull [(''b'', TArr [TStr ''x''])]) \<and> ordinary_keys (TObj TObjectPrototype [(''c'', TObj TObjectPrototype [(''d'', TNull)])]) \<and>
   keys_of (TObj TObjectPrototype [(''a'', TNum (1::int))]) \<inter> keys_of (TObj TNull [(''b'', TArr [TStr ''x''])]) = {} \<and>
   keys_of (TObj TObjectPrototype [(''a'', TNum (1::int))]) \<inter> keys_of (TObj TObjectPrototype [(''c'', TObj TObjectPrototype [(''d'', TNull)])]) = {} \<and>
   keys_of (TObj TNull [(''b'', TArr [TStr ''x''])]) \<inter> keys_of (TObj TObjectPrototype [(''c'', TObj TObjectPrototype [(''d'', TNull)])]) = {} \<and>
   mergeValues (mergeValues (TObj TObjectPrototype [(''a'', TNum (1::int))]) (TObj TNull [(''b'', TArr [TStr ''x''])])) (TObj TObjectPrototype [(''c'', TObj TObjectPrototype [(''d'', TNull)])])
     = mergeValues (TObj TObjectPrototype [(''a'', TNum (1::int))]) (mergeValues (TObj TNull [(''b'', TArr [TStr ''x''])]) (TObj TObjectPrototype [(''c'', TObj TObjectPrototype [(''d'', TNull)])])) \<and>
   mergeValues (mergeValues (TObj TObjectPrototype [(''a'', TNum (1::int))]) (TObj TNull [(''b'', TArr [TStr ''x''])])) (TObj TObjectPrototype [(''c'', TObj TObjectPrototype [(''d'', TNull)])])
     = TObj TObjectPrototype [(''a'', TNum 1), (''b'', TArr [TStr ''x'']),
                              (''c'', TObj TObjectPrototype [(''d'', TNull)])] \<and>
   mergeValues (TObj TObjectPrototype [(''a'', TNum (1::int))]) TUndefined = cloneValue (TObj TObjectPrototype [(''a'', TNum (1::int))]) \<and>
   mergeValues TUndefined (TObj TObjectPrototype [(''a'', TNum (1::int))]) = cloneValue (TObj TObjectPrototype [(''a'', TNum (1::int))])"
proof -
  have e: "mergeValues (mergeValues (TObj TObjectPrototype [(''a'', TNum (1::int))]) (TObj TNull [(''b'', TArr [TStr ''x''])])) (TObj TObjectPrototype [(''c'', TObj TObjectPrototype [(''d'', TNull)])])
     = TObj TObjectPrototype [(''a'', TNum 1), (''b'', TArr [TStr ''x'']),
                              (''c'', TObj TObjectPrototype [(''d'', TNull)])]"
    by code_simp
  show ?thesis
    using mergeValues_identity_assoc
      [of "TObj TObjectPrototype [(''a'', TNum (1::int))]" "TObj TObjectPrototype [(''a'', TNum (1::int))]" "TObj TNull [(''b'', TArr [TStr ''x''])]" "TObj TObjectPrototype [(''c'', TObj TObjectPrototype [(''d'', TNull)])]"] e
    by (simp add: OBJECT_PROTOTYPE_KEYS_def)
qed

section \<open>Properties of populate\<close>

lemma populate_loop_other:
  "k \<notin> fst ` set vals \<Longrightarrow> p_env (fst (populate_loop vals ov (ps, lv, upd))) k = p_env ps k"
  by (induction vals arbitrary: ps lv upd) (auto simp: Let_def setenv_def)

lemma populate_loop_keep:
  "\<not> ov \<Longrightarrow> k \<notin> set lv \<Longrightarrow> p_env ps k \<noteq> None \<Longrightarrow>
   p_env (fst (populate_loop vals ov (ps, lv, upd))) k = p_env ps k"
  by (induction vals arbitrary: ps lv upd) (auto simp: Let_def set_add_def setenv_def)

lemma populate_loop_step:
  "populate_loop ((n, x) # rest) ov (ps, lv, upd) =
     (if n \<notin> set lv \<and> \<not> ov \<and> p_env ps n \<noteq> None
      then populate_loop rest ov (ps, lv, upd)
      else populate_loop rest ov
             (setenv n x ps, if n \<in> set lv then lv else set_add n lv, if n \<in> set lv then upd else True))"
  by (simp add: Let_def)

lemma populate_loop_entry:
  "distinct (map fst vals) \<Longrightarrow> (k, v) \<in> set vals \<Longrightarrow>
   p_env (fst (populate_loop vals ov (ps, lv, upd))) k =
     (if ov \<or> k \<in> set lv \<or> p_env ps k = None then Some v else p_env ps k)"
proof (induction vals arbitrary: ps lv upd)
  case Nil
  then show ?case by simp
next
  case (Cons e rest)
  obtain n x where e: "e = (n, x)" by (cases e)
  show ?case
  proof (cases "k = n")
    case True
    then have vx: "v = x" and nk: "n \<notin> fst ` set rest" using Cons.prems e by force+
    show ?thesis unfolding e populate_loop_step using True vx
      by (simp add: populate_loop_other[OF nk] setenv_def)
  next
    case False
    then have m: "(k, v) \<in> set rest" and d: "distinct (map fst rest)" using Cons.prems e by auto
    note IH = Cons.IH[OF d m]
    show ?thesis
    proof (cases "n \<notin> set lv \<and> \<not> ov \<and> p_env ps n \<noteq> None")
      case True
      have "populate_loop (e # rest) ov (ps, lv, upd) = populate_loop rest ov (ps, lv, upd)"
        unfolding e populate_loop_step by (rule if_P[OF True])
      then show ?thesis by (simp only: IH)
    next
      case skip: False
      have "populate_loop (e # rest) ov (ps, lv, upd)
               = populate_loop rest ov (setenv n x ps, if n \<in> set lv then lv else set_add n lv,
                                        if n \<in> set lv then upd else True)"
        unfolding e populate_loop_step by (rule if_not_P[OF skip])
      then show ?thesis using False by (simp only: IH) (simp add: set_add_def setenv_def)
    qed
  qed
qed

text \<open>The assignments of the loop: the entries that pass the test, in the order of the entries.\<close>

lemma populate_loop_writes:
  "distinct (map fst vals) \<Longrightarrow>
   p_writes (fst (populate_loop vals ov (ps, lv, upd))) =
     p_writes ps @ filter (\<lambda>kv. ov \<or> fst kv \<in> set lv \<or> p_env ps (fst kv) = None) vals"
proof (induction vals arbitrary: ps lv upd)
  case Nil
  then show ?case by simp
next
  case (Cons e rest)
  obtain n x where e: "e = (n, x)" by (cases e)
  have d: "distinct (map fst rest)" and nk: "n \<notin> fst ` set rest" using Cons.prems e by auto
  show ?case
  proof (cases "n \<notin> set lv \<and> \<not> ov \<and> p_env ps n \<noteq> None")
    case True
    have st: "populate_loop (e # rest) ov (ps, lv, upd) = populate_loop rest ov (ps, lv, upd)"
      unfolding e populate_loop_step by (rule if_P[OF True])
    have "filter (\<lambda>kv. ov \<or> fst kv \<in> set lv \<or> p_env ps (fst kv) = None) (e # rest)
        = filter (\<lambda>kv. ov \<or> fst kv \<in> set lv \<or> p_env ps (fst kv) = None) rest"
      using True by (auto simp: e)
    then show ?thesis unfolding st Cons.IH[OF d] by (simp only:)
  next
    case False
    let ?lv = "if n \<in> set lv then lv else set_add n lv"
    have st: "populate_loop (e # rest) ov (ps, lv, upd)
             = populate_loop rest ov (setenv n x ps, ?lv, if n \<in> set lv then upd else True)"
      unfolding e populate_loop_step by (rule if_not_P[OF False])
    have "filter (\<lambda>kv. ov \<or> fst kv \<in> set ?lv \<or> p_env (setenv n x ps) (fst kv) = None) rest
        = filter (\<lambda>kv. ov \<or> fst kv \<in> set lv \<or> p_env ps (fst kv) = None) rest"
    proof (rule filter_cong[OF refl])
      fix kv assume "kv \<in> set rest"
      then have "fst kv \<noteq> n" using nk by auto
      then show "(ov \<or> fst kv \<in> set ?lv \<or> p_env (setenv n x ps) (fst kv) = None)
          = (ov \<or> fst kv \<in> set lv \<or> p_env ps (fst kv) = None)"
        by (auto simp: set_add_def setenv_def)
    qed
    moreover have "filter (\<lambda>kv. ov \<or> fst kv \<in> set lv \<or> p_env ps (fst kv) = None) (e # rest)
        = e # filter (\<lambda>kv. ov \<or> fst kv \<in> set lv \<or> p_env ps (fst kv) = None) rest"
      using False by (auto simp: e)
    ultimately show ?thesis unfolding st Cons.IH[OF d] by (simp add: e setenv_def)
  qed
qed

text \<open>
  Claim C2. For a values map (each key once) the loop of \<open>populate\<close> makes the assignment
  \<^verbatim>\<open>process_env[k] = v\<close> for exactly the entries \<open>(k, v)\<close> for which \<open>override\<close> is true, or \<open>k\<close> is
  in the sentinel set read from \<^verbatim>\<open>NODE_DOTENV_VARS\<close>, or \<open>process_env[k]\<close> was unset, in the
  order of the entries; after them \<open>populate\<close> makes at most the bookkeeping assignment to
  \<^verbatim>\<open>NODE_DOTENV_VARS\<close>. So for an entry whose key is not \<^verbatim>\<open>NODE_DOTENV_VARS\<close>, the returned
  environment holds \<open>v\<close> at \<open>k\<close> under that condition and the former value otherwise; and an
  existing key that is not in the sentinel set is never overwritten unless \<open>override\<close> is
  true.
\<close>

theorem populate_writes_exactly_when:
  "(distinct (map fst vals) \<longrightarrow>
      p_writes (populate vals ov ps) =
        p_writes ps
        @ filter (\<lambda>kv. ov \<or> fst kv \<in> set (loadedVars (p_env ps)) \<or> p_env ps (fst kv) = None) vals
        @ (if snd (snd (populate_loop vals ov (ps, loadedVars (p_env ps), False)))
           then [(SENTINEL_VARS,
                  js_join '','' (fst (snd (populate_loop vals ov (ps, loadedVars (p_env ps), False)))))]
           else [])) \<and>
   (distinct (map fst vals) \<and> (k, v) \<in> set vals \<and> k \<noteq> SENTINEL_VARS \<longrightarrow>
      p_env (populate vals ov ps) k =
        (if ov \<or> k \<in> set (loadedVars (p_env ps)) \<or> p_env ps k = None then Some v
         else p_env ps k)) \<and>
   (\<not> ov \<and> k \<notin> set (loadedVars (p_env ps)) \<and> p_env ps k \<noteq> None \<and> k \<noteq> SENTINEL_VARS \<longrightarrow>
      p_env (populate vals ov ps) k = p_env ps k)"
proof -
  let ?lv0 = "loadedVars (p_env ps)"
  obtain ps' lv upd where r: "populate_loop vals ov (ps, ?lv0, False) = (ps', lv, upd)"
    by (cases "populate_loop vals ov (ps, ?lv0, False)")
  have fin: "k \<noteq> SENTINEL_VARS \<Longrightarrow> p_env (populate vals ov ps) k = p_env ps' k"
    by (simp add: populate_def r setenv_def)
  have a: "distinct (map fst vals) \<Longrightarrow> (k, v) \<in> set vals \<Longrightarrow>
      p_env ps' k = (if ov \<or> k \<in> set ?lv0 \<or> p_env ps k = None then Some v else p_env ps k)"
    using populate_loop_entry[of vals k v ov ps ?lv0 False] by (simp add: r)
  have b: "\<not> ov \<Longrightarrow> k \<notin> set ?lv0 \<Longrightarrow> p_env ps k \<noteq> None \<Longrightarrow> p_env ps' k = p_env ps k"
    using populate_loop_keep[of ov k ?lv0 ps vals False] unfolding r by simp
  have w: "distinct (map fst vals) \<Longrightarrow> p_writes ps' =
        p_writes ps @ filter (\<lambda>kv. ov \<or> fst kv \<in> set ?lv0 \<or> p_env ps (fst kv) = None) vals"
    using populate_loop_writes[of vals ov ps ?lv0 False] by (simp add: r)
  show ?thesis
  proof (intro conjI impI)
    assume d: "distinct (map fst vals)"
    show "p_writes (populate vals ov ps) =
        p_writes ps
        @ filter (\<lambda>kv. ov \<or> fst kv \<in> set ?lv0 \<or> p_env ps (fst kv) = None) vals
        @ (if snd (snd (populate_loop vals ov (ps, ?lv0, False)))
           then [(SENTINEL_VARS, js_join '','' (fst (snd (populate_loop vals ov (ps, ?lv0, False)))))]
           else [])"
      unfolding r by (simp add: populate_def r setenv_def w[OF d])
  next
    assume h: "distinct (map fst vals) \<and> (k, v) \<in> set vals \<and> k \<noteq> SENTINEL_VARS"
    then have h1: "distinct (map fst vals)" and h2: "(k, v) \<in> set vals" and ns: "k \<noteq> SENTINEL_VARS"
      by simp_all
    show "p_env (populate vals ov ps) k =
        (if ov \<or> k \<in> set ?lv0 \<or> p_env ps k = None then Some v else p_env ps k)"
      by (simp only: fin[OF ns] a[OF h1 h2])
  next
    assume h: "\<not> ov \<and> k \<notin> set ?lv0 \<and> p_env ps k \<noteq> None \<and> k \<noteq> SENTINEL_VARS"
    then have "p_env ps' k = p_env ps k" and "p_env (populate vals ov ps) k = p_env ps' k"
      using b fin by blast+
    then show "p_env (populate vals ov ps) k = p_env ps k" by (simp only:)
  qed
qed

theorem populate_writes_exactly_when_witness:
  "distinct (map fst [(''FOO'', ''foo1''), (''DOCUMENT_ROOT'', ''/boot''), (''NEW'', ''n'')]) \<and>
   (''DOCUMENT_ROOT'', ''/boot'') \<in> set [(''FOO'', ''foo1''), (''DOCUMENT_ROOT'', ''/boot''), (''NEW'', ''n'')] \<and>
   ''DOCUMENT_ROOT'' \<noteq> SENTINEL_VARS \<and>
   ''DOCUMENT_ROOT'' \<notin> set (loadedVars
      [SENTINEL_VARS \<mapsto> ''FOO'', ''FOO'' \<mapsto> ''foo'', ''DOCUMENT_ROOT'' \<mapsto> ''/var/www'']) \<and>
   [SENTINEL_VARS \<mapsto> ''FOO'', ''FOO'' \<mapsto> ''foo'', ''DOCUMENT_ROOT'' \<mapsto> ''/var/www'']
      ''DOCUMENT_ROOT'' \<noteq> None \<and>
   p_writes (populate [(''FOO'', ''foo1''), (''DOCUMENT_ROOT'', ''/boot''), (''NEW'', ''n'')] False
      \<lparr>p_env = [SENTINEL_VARS \<mapsto> ''FOO'', ''FOO'' \<mapsto> ''foo'', ''DOCUMENT_ROOT'' \<mapsto> ''/var/www''],
       p_writes = [], p_loaded = []\<rparr>)
     = [(''FOO'', ''foo1''), (''NEW'', ''n''), (SENTINEL_VARS, ''FOO,NEW'')] \<and>
   p_env (populate [(''FOO'', ''foo1''), (''DOCUMENT_ROOT'', ''/boot''), (''NEW'', ''n'')] False
      \<lparr>p_env = [SENTINEL_VARS \<mapsto> ''FOO'', ''FOO'' \<mapsto> ''foo'', ''DOCUMENT_ROOT'' \<mapsto> ''/var/www''],
       p_writes = [], p_loaded = []\<rparr>) ''DOCUMENT_ROOT'' = Some ''/var/www''"
  using populate_writes_exactly_when
      [of "[(''FOO'', ''foo1''), (''DOCUMENT_ROOT'', ''/boot''), (''NEW'', ''n'')]" False
          "\<lparr>p_env = [SENTINEL_VARS \<mapsto> ''FOO'', ''FOO'' \<mapsto> ''foo'', ''DOCUMENT_ROOT'' \<mapsto> ''/var/www''],
            p_writes = [], p_loaded = []\<rparr>" "''DOCUMENT_ROOT''" "''/boot''"]
  by (simp add: loadedVars_def SENTINEL_VARS_def js_trim_def is_js_space_def set_add_def setenv_def)

section \<open>Properties of variable interpolation\<close>

lemma takeWhile_stop:
  "(\<forall>x\<in>set xs. P x) \<Longrightarrow> ys = [] \<or> \<not> P (hd ys) \<Longrightarrow> takeWhile P (xs @ ys) = xs"
  by (induction xs) (cases ys; simp)+

lemma is_upper_not_special:
  "is_upper c \<Longrightarrow> c \<noteq> CHR ''{'' \<and> c \<noteq> CHR ''$'' \<and> c \<noteq> BSL \<and> c \<noteq> CHR ''('' \<and> c \<noteq> CHR ''_''"
  by (auto simp: is_upper_def)

lemma is_name_char_not_special:
  "is_name_char c \<Longrightarrow> c \<noteq> CHR ''{'' \<and> c \<noteq> CHR ''$'' \<and> c \<noteq> BSL \<and> c \<noteq> CHR ''(''
     \<and> c \<noteq> CHR ''}'' \<and> c \<noteq> CHR '':'' \<and> c \<noteq> CHR '','' \<and> \<not> is_js_space c"
  by (auto simp: is_name_char_def is_upper_def is_js_space_def)

lemma match_varname_chars:
  assumes "match_varname n = Some n"
  shows "n \<noteq> [] \<and> (\<forall>c \<in> set n. is_name_char c)"
proof (cases n)
  case Nil
  then show ?thesis using assms by (simp add: match_varname_def)
next
  case (Cons c r)
  show ?thesis
  proof (cases "c = CHR ''_''")
    case True
    then obtain c' r' where r: "r = c' # r'" and u: "is_upper c'" and t: "takeWhile is_name_char r' = r'"
      using assms Cons by (auto simp: match_varname_def split: list.splits if_splits)
    have "\<forall>x\<in>set r'. is_name_char x" using t by (simp add: takeWhile_eq_all_conv)
    then show ?thesis using Cons True r u by (simp add: is_name_char_def)
  next
    case False
    then have u: "is_upper c" and t: "takeWhile is_name_char r = r"
      using assms Cons by (auto simp: match_varname_def split: if_splits)
    have "\<forall>x\<in>set r. is_name_char x" using t by (simp add: takeWhile_eq_all_conv)
    then show ?thesis using Cons u by (simp add: is_name_char_def)
  qed
qed

lemma match_varname_append:
  assumes "match_varname n = Some n" and "rest = [] \<or> \<not> is_name_char (hd rest)"
  shows "match_varname (n @ rest) = Some n"
proof (cases n)
  case Nil
  then show ?thesis using assms by (simp add: match_varname_def)
next
  case (Cons c r)
  show ?thesis
  proof (cases "c = CHR ''_''")
    case True
    then obtain c' r' where r: "r = c' # r'" and u: "is_upper c'" and t: "takeWhile is_name_char r' = r'"
      using assms Cons by (auto simp: match_varname_def split: list.splits if_splits)
    have "\<forall>x\<in>set r'. is_name_char x" using t by (simp add: takeWhile_eq_all_conv)
    then have "takeWhile is_name_char (r' @ rest) = r'" using assms(2) by (rule takeWhile_stop)
    then show ?thesis using Cons True r u by (simp add: match_varname_def)
  next
    case False
    then have u: "is_upper c" and t: "takeWhile is_name_char r = r"
      using assms Cons by (auto simp: match_varname_def split: if_splits)
    have "\<forall>x\<in>set r. is_name_char x" using t by (simp add: takeWhile_eq_all_conv)
    then have "takeWhile is_name_char (r @ rest) = r" using assms(2) by (rule takeWhile_stop)
    then show ?thesis using Cons False u by (simp add: match_varname_def)
  qed
qed

lemma match_default_text:
  assumes "default_text t"
  shows "match_default (t @ CHR ''}'' # post) = (if t = [] then None else Some t)"
proof (cases "t = []")
  case True
  then show ?thesis by (simp add: match_default_def split: list.splits)
next
  case False
  then obtain d where d: "t = '':-'' @ d \<or> t = '':='' @ d" and nb: "CHR ''}'' \<notin> set d"
    using assms by (auto simp: default_text_def)
  have "takeWhile (\<lambda>c. c \<noteq> CHR ''}'') (d @ CHR ''}'' # post) = d"
    using nb by (intro takeWhile_stop) auto
  then show ?thesis using d False by (auto simp: match_default_def)
qed

lemma match_variable_braces:
  assumes n: "match_varname name = Some name" and t: "default_text t"
  shows "match_variable (''${'' @ name @ t @ ''}'' @ post) =
     Some (\<lparr>vm_text = ''${'' @ name @ t @ ''}'', vm_backslashes = [], vm_opening = True,
            vm_name = Some name, vm_default = (if t = [] then None else Some t),
            vm_closing = True\<rparr>, post)"
proof -
  have hd_t: "t @ CHR ''}'' # post = [] \<or> \<not> is_name_char (hd (t @ CHR ''}'' # post))"
    using t is_name_char_not_special[of "CHR '':''"] is_name_char_not_special[of "CHR ''}''"]
    by (auto simp: default_text_def)
  have mn: "match_varname (name @ t @ CHR ''}'' # post) = Some name"
    using match_varname_append[OF n hd_t] .
  have md: "match_default (t @ CHR ''}'' # post) = (if t = [] then None else Some t)"
    using match_default_text[OF t] .
  have oc1: "opt_char (CHR ''{'') (CHR ''{'' # name @ t @ CHR ''}'' # post)
      = (True, name @ t @ CHR ''}'' # post)"
    by (simp add: opt_char_def)
  have oc2: "opt_char (CHR ''}'') (CHR ''}'' # post) = (True, post)"
    by (simp add: opt_char_def)
  have d1: "drop_match (Some name) (name @ t @ CHR ''}'' # post) = t @ CHR ''}'' # post"
    by (simp add: drop_match_def)
  have d2: "drop_match (if t = [] then None else Some t) (t @ CHR ''}'' # post) = CHR ''}'' # post"
    by (simp add: drop_match_def)
  have a0: "at (CHR ''{'' # name @ t @ CHR ''}'' # post) 0 \<noteq> Some (CHR ''('')"
    by (simp add: at_def)
  show ?thesis
    unfolding match_variable_def Let_def
    using a0 by (simp add: oc1 mn d1 md d2 oc2 del: if_split cong: if_cong)
qed

lemma match_variable_bare:
  assumes n: "match_varname name = Some name"
    and p: "post = [] \<or> (\<not> is_name_char (hd post) \<and> hd post \<noteq> CHR '':'' \<and> hd post \<noteq> CHR ''}'')"
  shows "match_variable (''$'' @ name @ post) =
     Some (\<lparr>vm_text = ''$'' @ name, vm_backslashes = [], vm_opening = False,
            vm_name = Some name, vm_default = None, vm_closing = False\<rparr>, post)"
proof -
  have p': "post = [] \<or> \<not> is_name_char (hd post)" using p by auto
  have mn: "match_varname (name @ post) = Some name"
    using match_varname_append[OF n p'] .
  have md: "match_default post = None"
  proof (cases post)
    case Nil
    then show ?thesis by (simp add: match_default_def)
  next
    case (Cons a r)
    then have "a \<noteq> CHR '':''" using p by simp
    then show ?thesis using Cons by (simp add: match_default_def split: list.splits)
  qed
  obtain c r where nm: "name = c # r" and c: "c \<noteq> CHR ''{''" "c \<noteq> CHR ''(''"
    using match_varname_chars[OF n] is_name_char_not_special[of "hd name"] by (cases name) auto
  have oc1: "opt_char (CHR ''{'') (name @ post) = (False, name @ post)"
    using nm c by (simp add: opt_char_def)
  have oc2: "opt_char (CHR ''}'') post = (False, post)"
  proof (cases post)
    case Nil
    then show ?thesis by (simp add: opt_char_def)
  next
    case (Cons a r)
    then have "a \<noteq> CHR ''}''" using p by simp
    then show ?thesis using Cons by (simp add: opt_char_def)
  qed
  have d1: "drop_match (Some name) (name @ post) = post" by (simp add: drop_match_def)
  have d2: "drop_match None post = post" by (simp add: drop_match_def)
  have a0: "at (name @ post) 0 \<noteq> Some (CHR ''('')" using nm c by (simp add: at_def)
  show ?thesis
    unfolding match_variable_def Let_def
    using a0 by (simp add: oc1 mn d1 md d2 oc2)
qed

lemma match_variable_None:
  assumes "\<exists>x \<in> set s. x \<noteq> BSL" "hd (dropWhile (\<lambda>c. c = BSL) s) \<noteq> CHR ''$''"
  shows "match_variable s = None"
proof -
  have "dropWhile (\<lambda>c. c = BSL) s \<noteq> []" using assms(1) by (auto simp: dropWhile_eq_Nil_conv)
  then obtain d s2 where "dropWhile (\<lambda>c. c = BSL) s = d # s2" by (cases "dropWhile (\<lambda>c. c = BSL) s") auto
  then show ?thesis using assms(2) by (simp add: match_variable_def)
qed

lemma match_variable_Nil_bs: "\<forall>x \<in> set s. x = BSL \<Longrightarrow> match_variable s = None"
proof -
  assume "\<forall>x \<in> set s. x = BSL"
  then have h: "dropWhile (\<lambda>c. c = BSL) s = []" by (simp add: dropWhile_eq_Nil_conv)
  show ?thesis unfolding match_variable_def Let_def h by simp
qed

lemma match_variable_no_dollar: "CHR ''$'' \<notin> set s \<Longrightarrow> match_variable s = None"
proof (cases "\<forall>x \<in> set s. x = BSL")
  case True
  then show ?thesis by (rule match_variable_Nil_bs)
next
  case False
  assume nd: "CHR ''$'' \<notin> set s"
  have ne: "dropWhile (\<lambda>c. c = BSL) s \<noteq> []" using False by (auto simp: dropWhile_eq_Nil_conv)
  then have "hd (dropWhile (\<lambda>c. c = BSL) s) \<in> set s"
    using set_dropWhileD[of _ "\<lambda>c. c = BSL" s] hd_in_set[OF ne] by blast
  then have "hd (dropWhile (\<lambda>c. c = BSL) s) \<noteq> CHR ''$''" using nd by auto
  then show ?thesis using False by (intro match_variable_None) auto
qed

lemma scan_no_dollar:
  "CHR ''$'' \<notin> set s \<Longrightarrow> resolveVariables_scan loaded pe prev s st = Inr (s, st)"
proof (induction s arbitrary: prev)
  case Nil
  then show ?case by simp
next
  case (Cons c cs)
  have "match_variable (c # cs) = None" using Cons.prems by (rule match_variable_no_dollar)
  moreover have "resolveVariables_scan loaded pe (c = BSL) cs st = Inr (cs, st)"
    using Cons by simp
  ultimately show ?case by simp
qed

lemma scan_prefix:
  "CHR ''$'' \<notin> set pre \<Longrightarrow> (if pre = [] then \<not> prev else last pre \<noteq> BSL) \<Longrightarrow>
   resolveVariables_scan loaded pe prev (pre @ s) st =
     (case resolveVariables_scan loaded pe False s st of
        Inl e \<Rightarrow> Inl e
      | Inr (out, st') \<Rightarrow> Inr (pre @ out, st'))"
proof (induction pre arbitrary: prev)
  case Nil
  then show ?case by (auto split: sum.splits)
next
  case (Cons c pre)
  have lb: "last (c # pre) \<noteq> BSL" using Cons.prems(2) by simp
  moreover have "last (c # pre) \<in> set (c # pre)" by (rule last_in_set) simp
  ultimately have ex: "\<exists>x \<in> set (c # pre). x \<noteq> BSL" by blast
  from ex obtain x where x: "x \<in> set (c # pre)" "\<not> (x = BSL)" by blast
  have dw: "dropWhile (\<lambda>c. c = BSL) ((c # pre) @ s) = dropWhile (\<lambda>c. c = BSL) (c # pre) @ s"
    using x by (rule dropWhile_append1)
  have ne: "dropWhile (\<lambda>c. c = BSL) (c # pre) \<noteq> []" using ex by (auto simp: dropWhile_eq_Nil_conv)
  then have "hd (dropWhile (\<lambda>c. c = BSL) (c # pre)) \<in> set (c # pre)"
    using set_dropWhileD[of _ "\<lambda>c. c = BSL" "c # pre"] hd_in_set[OF ne] by blast
  then have hd: "hd (dropWhile (\<lambda>c. c = BSL) ((c # pre) @ s)) \<noteq> CHR ''$''"
    using Cons.prems(1) ne unfolding dw by auto
  have mv: "match_variable (c # pre @ s) = None"
    using match_variable_None[of "(c # pre) @ s"] ex hd by auto
  have "(if pre = [] then \<not> (c = BSL) else last pre \<noteq> BSL)" using lb by (simp split: if_splits)
  then have IH: "resolveVariables_scan loaded pe (c = BSL) (pre @ s) st =
     (case resolveVariables_scan loaded pe False s st of
        Inl e \<Rightarrow> Inl e
      | Inr (out, st') \<Rightarrow> Inr (pre @ out, st'))"
    using Cons.IH[of "c = BSL"] Cons.prems(1) by simp
  show ?case by (simp add: mv IH split: sum.splits)
qed

lemma lookup_variable_precedence:
  "lookup_variable loaded pe vals name = lookup_spec loaded pe vals name"
  by (auto simp: lookup_variable_def lookup_spec_def split: option.splits)

lemma resolve_braces:
  assumes n: "match_varname name = Some name"
    and pre: "CHR ''$'' \<notin> set pre" "pre = [] \<or> last pre \<noteq> BSL"
    and post: "CHR ''$'' \<notin> set post"
  shows "resolveVariables loaded pe (pre @ ''${'' @ name @ ''}'' @ post) st
       = Inr (pre @ lookup_variable loaded pe (values_f st) name @ post, st)"
proof -
  have dt: "default_text []" by (simp add: default_text_def)
  have m: "match_variable (''${'' @ name @ ''}'' @ post) =
     Some (\<lparr>vm_text = ''${'' @ name @ ''}'', vm_backslashes = [], vm_opening = True,
            vm_name = Some name, vm_default = None, vm_closing = True\<rparr>, post)"
    using match_variable_braces[OF n dt, of post] by simp
  have r: "replace_variable loaded pe st \<lparr>vm_text = ''${'' @ name @ ''}'', vm_backslashes = [], vm_opening = True,
            vm_name = Some name, vm_default = None, vm_closing = True\<rparr>
         = Inr (lookup_variable loaded pe (values_f st) name, st)"
    by (simp add: replace_variable_def Let_def)
  have s: "resolveVariables_scan loaded pe False (''${'' @ name @ ''}'' @ post) st
       = Inr (lookup_variable loaded pe (values_f st) name @ post, st)"
    using m r scan_no_dollar[OF post, where loaded=loaded and pe=pe and prev=False and st=st] by simp
  have "resolveVariables_scan loaded pe False (pre @ ''${'' @ name @ ''}'' @ post) st
       = Inr (pre @ lookup_variable loaded pe (values_f st) name @ post, st)"
  proof -
    have pp: "(if pre = [] then \<not> False else last pre \<noteq> BSL)" using pre(2) by auto
    show ?thesis by (simp only: scan_prefix[OF pre(1) pp] s sum.case prod.case)
  qed
  then show ?thesis by (simp add: resolveVariables_def)
qed

lemma resolve_bare:
  assumes n: "match_varname name = Some name"
    and pre: "CHR ''$'' \<notin> set pre" "pre = [] \<or> last pre \<noteq> BSL"
    and post: "CHR ''$'' \<notin> set post"
      "post = [] \<or> (\<not> is_name_char (hd post) \<and> hd post \<noteq> CHR '':'' \<and> hd post \<noteq> CHR ''}'')"
  shows "resolveVariables loaded pe (pre @ ''$'' @ name @ post) st
       = Inr (pre @ lookup_variable loaded pe (values_f st) name @ post, st)"
proof -
  have m: "match_variable (''$'' @ name @ post) =
     Some (\<lparr>vm_text = ''$'' @ name, vm_backslashes = [], vm_opening = False,
            vm_name = Some name, vm_default = None, vm_closing = False\<rparr>, post)"
    using match_variable_bare[OF n post(2)] .
  have r: "replace_variable loaded pe st \<lparr>vm_text = ''$'' @ name, vm_backslashes = [], vm_opening = False,
            vm_name = Some name, vm_default = None, vm_closing = False\<rparr>
         = Inr (lookup_variable loaded pe (values_f st) name, st)"
    by (simp add: replace_variable_def Let_def)
  have nm: "name \<noteq> []" and nc: "\<forall>c\<in>set name. is_name_char c" using match_varname_chars[OF n] by auto
  have "last name \<in> set name" using nm by simp
  then have lst: "last (''$'' @ name) \<noteq> BSL" using nm nc is_name_char_not_special by auto
  have s: "resolveVariables_scan loaded pe False (''$'' @ name @ post) st
       = Inr (lookup_variable loaded pe (values_f st) name @ post, st)"
    using m r lst scan_no_dollar[OF post(1), where loaded=loaded and pe=pe and prev=False and st=st] by simp
  have "resolveVariables_scan loaded pe False (pre @ ''$'' @ name @ post) st
       = Inr (pre @ lookup_variable loaded pe (values_f st) name @ post, st)"
  proof -
    have pp: "(if pre = [] then \<not> False else last pre \<noteq> BSL)" using pre(2) by auto
    show ?thesis by (simp only: scan_prefix[OF pre(1) pp] s sum.case prod.case)
  qed
  then show ?thesis by (simp add: resolveVariables_def)
qed

lemma findInvalid_no_dollar: "findInvalidDefaultChar d = None \<Longrightarrow> CHR ''$'' \<notin> set d"
  by (induction d) (auto split: if_splits)

lemma resolve_default:
  assumes n: "match_varname name = Some name"
    and d: "findInvalidDefaultChar d = None" "CHR ''}'' \<notin> set d"
    and op: "op = CHR ''-'' \<or> op = CHR ''=''"
    and pre: "CHR ''$'' \<notin> set pre" "pre = [] \<or> last pre \<noteq> BSL"
    and post: "CHR ''$'' \<notin> set post"
  shows "resolveVariables loaded pe (pre @ ''${'' @ name @ CHR '':'' # op # d @ ''}'' @ post) st
       = (let v = lookup_variable loaded pe (values_f st) name in
          Inr (pre @ (if v = [] then d else v) @ post,
               if v = [] \<and> op = CHR ''=''
               then st\<lparr>values_f := AList.update name d (values_f st)\<rparr> else st))"
proof -
  let ?t = "CHR '':'' # op # d"
  let ?v = "lookup_variable loaded pe (values_f st) name"
  let ?st' = "if ?v = [] \<and> op = CHR ''='' then st\<lparr>values_f := AList.update name d (values_f st)\<rparr> else st"
  have dt: "default_text ?t" using d(2) op by (auto simp: default_text_def)
  have m: "match_variable (''${'' @ name @ ?t @ ''}'' @ post) =
     Some (\<lparr>vm_text = ''${'' @ name @ ?t @ ''}'', vm_backslashes = [], vm_opening = True,
            vm_name = Some name, vm_default = Some ?t, vm_closing = True\<rparr>, post)"
    using match_variable_braces[OF n dt, of post] by simp
  have r: "replace_variable loaded pe st \<lparr>vm_text = ''${'' @ name @ ?t @ ''}'', vm_backslashes = [], vm_opening = True,
            vm_name = Some name, vm_default = Some ?t, vm_closing = True\<rparr>
         = Inr (if ?v = [] then d else ?v, ?st')"
    using op d(1) by (auto simp: replace_variable_def Let_def at_def)
  have s: "resolveVariables_scan loaded pe False (''${'' @ name @ ?t @ ''}'' @ post) st
       = Inr ((if ?v = [] then d else ?v) @ post, ?st')"
    using m r scan_no_dollar[OF post, where loaded=loaded and pe=pe and prev=False and st="?st'"]
    by simp
  have "resolveVariables_scan loaded pe False (pre @ ''${'' @ name @ ?t @ ''}'' @ post) st
       = Inr (pre @ (if ?v = [] then d else ?v) @ post, ?st')"
  proof -
    have pp: "(if pre = [] then \<not> False else last pre \<noteq> BSL)" using pre(2) by auto
    show ?thesis by (simp only: scan_prefix[OF pre(1) pp] s sum.case prod.case)
  qed
  then show ?thesis by (simp add: resolveVariables_def Let_def)
qed

text \<open>
  Claim C4. For a name \<open>NAME\<close> (a full match of the name pattern), the reference \<^verbatim>\<open>${NAME}\<close>
  inside a value, before and after it text without dollar sign and no backslash right
  before it, is replaced by the value that the specification's precedence gives, and
  the parse state is unchanged; so is \<^verbatim>\<open>$NAME\<close> when the text after it does not go on
  as a name, a default or a closing brace. Both the double-quoted and the bare segment
  of \<open>lexValue\<close> resolve their text with this function.
\<close>

theorem interpolation_lookup_precedence:
  "match_varname name = Some name \<and> CHR ''$'' \<notin> set pre \<and> (pre = [] \<or> last pre \<noteq> BSL)
     \<and> CHR ''$'' \<notin> set post \<longrightarrow>
   resolveVariables loaded pe (pre @ ''${'' @ name @ ''}'' @ post) st
     = Inr (pre @ lookup_spec loaded pe (values_f st) name @ post, st) \<and>
   ((post = [] \<or> (\<not> is_name_char (hd post) \<and> hd post \<noteq> CHR '':'' \<and> hd post \<noteq> CHR ''}''))
     \<longrightarrow> resolveVariables loaded pe (pre @ ''$'' @ name @ post) st
       = Inr (pre @ lookup_spec loaded pe (values_f st) name @ post, st))"
  using resolve_braces[of name pre post loaded pe st] resolve_bare[of name pre post loaded pe st]
  by (simp only: lookup_variable_precedence) blast

theorem interpolation_lookup_precedence_witness:
  "match_varname ''FOO'' = Some ''FOO'' \<and> CHR ''$'' \<notin> set ''a='' \<and> last ''a='' \<noteq> BSL
     \<and> CHR ''$'' \<notin> set ''/b'' \<and> \<not> is_name_char (hd ''/b'') \<and>
   resolveVariables [''FOO''] [''FOO'' \<mapsto> ''env''] ''a=${FOO}/b'' \<lparr>path_f = ''.env'', data_f = [], cursor = 0, lineno = 1, end_f = 0, values_f = [(''FOO'', ''parse'')]\<rparr> = Inr (''a=parse/b'', \<lparr>path_f = ''.env'', data_f = [], cursor = 0, lineno = 1, end_f = 0, values_f = [(''FOO'', ''parse'')]\<rparr>) \<and>
   resolveVariables [''FOO''] [''FOO'' \<mapsto> ''env''] ''a=$FOO/b'' \<lparr>path_f = ''.env'', data_f = [], cursor = 0, lineno = 1, end_f = 0, values_f = [(''FOO'', ''parse'')]\<rparr> = Inr (''a=parse/b'', \<lparr>path_f = ''.env'', data_f = [], cursor = 0, lineno = 1, end_f = 0, values_f = [(''FOO'', ''parse'')]\<rparr>) \<and>
   resolveVariables [] [''FOO'' \<mapsto> ''env''] ''a=$FOO/b'' \<lparr>path_f = ''.env'', data_f = [], cursor = 0, lineno = 1, end_f = 0, values_f = [(''FOO'', ''parse'')]\<rparr> = Inr (''a=env/b'', \<lparr>path_f = ''.env'', data_f = [], cursor = 0, lineno = 1, end_f = 0, values_f = [(''FOO'', ''parse'')]\<rparr>) \<and>
   resolveVariables [] Map.empty ''a=$FOO/b'' \<lparr>path_f = ''.env'', data_f = [], cursor = 0, lineno = 1, end_f = 0, values_f = [(''FOO'', ''parse'')]\<rparr> = Inr (''a=parse/b'', \<lparr>path_f = ''.env'', data_f = [], cursor = 0, lineno = 1, end_f = 0, values_f = [(''FOO'', ''parse'')]\<rparr>)"
  using interpolation_lookup_precedence
          [of "''FOO''" "''a=''" "''/b''" "[''FOO'']" "[''FOO'' \<mapsto> ''env'']" "\<lparr>path_f = ''.env'', data_f = [], cursor = 0, lineno = 1, end_f = 0, values_f = [(''FOO'', ''parse'')]\<rparr>"]
        interpolation_lookup_precedence
          [of "''FOO''" "''a=''" "''/b''" "[]" "[''FOO'' \<mapsto> ''env'']" "\<lparr>path_f = ''.env'', data_f = [], cursor = 0, lineno = 1, end_f = 0, values_f = [(''FOO'', ''parse'')]\<rparr>"]
        interpolation_lookup_precedence
          [of "''FOO''" "''a=''" "''/b''" "[]" "Map.empty" "\<lparr>path_f = ''.env'', data_f = [], cursor = 0, lineno = 1, end_f = 0, values_f = [(''FOO'', ''parse'')]\<rparr>"]
  by (simp add: match_varname_def is_upper_def is_name_char_def lookup_spec_def)

text \<open>
  Claim C6, as the code has it. For a name \<open>NAME\<close> and a default body \<open>d\<close> that the parser
  accepts (no quote, opening brace, backslash, dollar sign or closing brace), with \<open>v\<close>
  the looked-up value of \<open>NAME\<close>:
  \<^item> \<^verbatim>\<open>${NAME:-d}\<close> is replaced by \<open>d\<close> when \<open>v\<close> is empty and by \<open>v\<close> otherwise, and the parse
    state is unchanged;
  \<^item> \<^verbatim>\<open>${NAME:=d}\<close> is replaced in the same way and, when \<open>v\<close> is empty, stores \<open>NAME = d\<close> in
    the value map of the parse;
  \<^item> after that store, a later reference to \<open>NAME\<close> yields \<open>d\<close> when \<open>NAME\<close> is in the
    loaded-by-us set or unset in the process environment.
\<close>

theorem default_modifiers:
  "match_varname name = Some name \<and> findInvalidDefaultChar d = None \<and> CHR ''}'' \<notin> set d
     \<and> CHR ''$'' \<notin> set pre \<and> (pre = [] \<or> last pre \<noteq> BSL) \<and> CHR ''$'' \<notin> set post \<longrightarrow>
   resolveVariables loaded pe (pre @ ''${'' @ name @ '':-'' @ d @ ''}'' @ post) st
     = Inr (pre @ (if lookup_variable loaded pe (values_f st) name = [] then d
                   else lookup_variable loaded pe (values_f st) name) @ post, st) \<and>
   resolveVariables loaded pe (pre @ ''${'' @ name @ '':='' @ d @ ''}'' @ post) st
     = Inr (pre @ (if lookup_variable loaded pe (values_f st) name = [] then d
                   else lookup_variable loaded pe (values_f st) name) @ post,
            if lookup_variable loaded pe (values_f st) name = []
            then st\<lparr>values_f := AList.update name d (values_f st)\<rparr> else st) \<and>
   (name \<in> set loaded \<or> pe name = None \<longrightarrow>
      resolveVariables loaded pe (pre @ ''${'' @ name @ ''}'' @ post)
          (st\<lparr>values_f := AList.update name d (values_f st)\<rparr>)
        = Inr (pre @ d @ post, st\<lparr>values_f := AList.update name d (values_f st)\<rparr>))"
proof (intro impI, elim conjE)
  assume n: "match_varname name = Some name"
    and d: "findInvalidDefaultChar d = None" "CHR ''}'' \<notin> set d"
    and pre: "CHR ''$'' \<notin> set pre" "pre = [] \<or> last pre \<noteq> BSL"
    and post: "CHR ''$'' \<notin> set post"
  have a: "resolveVariables loaded pe (pre @ ''${'' @ name @ '':-'' @ d @ ''}'' @ post) st
     = Inr (pre @ (if lookup_variable loaded pe (values_f st) name = [] then d
                   else lookup_variable loaded pe (values_f st) name) @ post, st)"
    using resolve_default[OF n d _ pre post, of "CHR ''-''" loaded pe st]
    by (simp add: Let_def)
  have b: "resolveVariables loaded pe (pre @ ''${'' @ name @ '':='' @ d @ ''}'' @ post) st
     = Inr (pre @ (if lookup_variable loaded pe (values_f st) name = [] then d
                   else lookup_variable loaded pe (values_f st) name) @ post,
            if lookup_variable loaded pe (values_f st) name = []
            then st\<lparr>values_f := AList.update name d (values_f st)\<rparr> else st)"
    using resolve_default[OF n d _ pre post, of "CHR ''=''" loaded pe st]
    by (simp add: Let_def)
  have c: "resolveVariables loaded pe (pre @ ''${'' @ name @ ''}'' @ post)
          (st\<lparr>values_f := AList.update name d (values_f st)\<rparr>)
        = Inr (pre @ d @ post, st\<lparr>values_f := AList.update name d (values_f st)\<rparr>)"
    if "name \<in> set loaded \<or> pe name = None"
  proof -
    have "lookup_variable loaded pe (AList.update name d (values_f st)) name = d"
      using that by (auto simp: lookup_variable_def update_conv')
    then show ?thesis
      using resolve_braces[OF n pre post,
              of loaded pe "st\<lparr>values_f := AList.update name d (values_f st)\<rparr>"]
      by simp
  qed
  show "resolveVariables loaded pe (pre @ ''${'' @ name @ '':-'' @ d @ ''}'' @ post) st
     = Inr (pre @ (if lookup_variable loaded pe (values_f st) name = [] then d
                   else lookup_variable loaded pe (values_f st) name) @ post, st) \<and>
   resolveVariables loaded pe (pre @ ''${'' @ name @ '':='' @ d @ ''}'' @ post) st
     = Inr (pre @ (if lookup_variable loaded pe (values_f st) name = [] then d
                   else lookup_variable loaded pe (values_f st) name) @ post,
            if lookup_variable loaded pe (values_f st) name = []
            then st\<lparr>values_f := AList.update name d (values_f st)\<rparr> else st) \<and>
   (name \<in> set loaded \<or> pe name = None \<longrightarrow>
      resolveVariables loaded pe (pre @ ''${'' @ name @ ''}'' @ post)
          (st\<lparr>values_f := AList.update name d (values_f st)\<rparr>)
        = Inr (pre @ d @ post, st\<lparr>values_f := AList.update name d (values_f st)\<rparr>))"
    using a b c by blast
qed

theorem default_modifiers_witness:
  "match_varname ''NAME'' = Some ''NAME'' \<and> findInvalidDefaultChar ''x'' = None
     \<and> CHR ''}'' \<notin> set ''x'' \<and> CHR ''$'' \<notin> set ''a='' \<and> last ''a='' \<noteq> BSL \<and> CHR ''$'' \<notin> set ''/b''
     \<and> Map.empty ''NAME'' = (None :: string option) \<and>
   resolveVariables [] Map.empty ''a=${NAME:-x}/b'' \<lparr>path_f = ''.env'', data_f = [], cursor = 0, lineno = 1, end_f = 0, values_f = []\<rparr> = Inr (''a=x/b'', \<lparr>path_f = ''.env'', data_f = [], cursor = 0, lineno = 1, end_f = 0, values_f = []\<rparr>) \<and>
   resolveVariables [] Map.empty ''a=${NAME:=x}/b'' \<lparr>path_f = ''.env'', data_f = [], cursor = 0, lineno = 1, end_f = 0, values_f = []\<rparr> = Inr (''a=x/b'', \<lparr>path_f = ''.env'', data_f = [], cursor = 0, lineno = 1, end_f = 0, values_f = [(''NAME'', ''x'')]\<rparr>) \<and>
   resolveVariables [] Map.empty ''a=${NAME}/b'' \<lparr>path_f = ''.env'', data_f = [], cursor = 0, lineno = 1, end_f = 0, values_f = [(''NAME'', ''x'')]\<rparr> = Inr (''a=x/b'', \<lparr>path_f = ''.env'', data_f = [], cursor = 0, lineno = 1, end_f = 0, values_f = [(''NAME'', ''x'')]\<rparr>)"
  using default_modifiers [of "''NAME''" "''x''" "''a=''" "''/b''" "[]" Map.empty "\<lparr>path_f = ''.env'', data_f = [], cursor = 0, lineno = 1, end_f = 0, values_f = []\<rparr>"]
  by (simp add: match_varname_def is_upper_def is_name_char_def lookup_variable_def at_def)

text \<open>
  Claim C6 as stated fails where the process environment holds \<open>NAME\<close> with the empty
  string and \<open>NAME\<close> is not in the loaded-by-us set: \<^verbatim>\<open>${NAME:=x}\<close> yields \<open>x\<close> and stores
  \<open>NAME = x\<close>, yet the later reference \<^verbatim>\<open>$NAME\<close> of the same parse still reads the process
  environment and yields the empty string.
\<close>

theorem default_assign_later_reference_counterexample:
  "parse 20
     \<lparr>platform = ''linux'',
      spawnSync = (\<lambda>c e. \<lparr>sp_error = None, sp_status = Some 1, sp_stdout = [], sp_stderr = []\<rparr>),
      readFile = Map.empty,
      toString_utf8 = (\<lambda>b. b)\<rparr>
     [''NAME'' \<mapsto> []] (''FOO=${NAME:=x}'' @ [LF] @ ''BAR=$NAME'') ''.env''
   = Some (Inr [(''NAME'', ''x''), (''FOO'', ''x''), (''BAR'', [])])"
  by code_simp

section \<open>Properties of the cascade\<close>

lemma populate_loop_dom:
  "p_env ps k \<noteq> None \<Longrightarrow> p_env (fst (populate_loop vals ov (ps, lv, upd))) k \<noteq> None"
  by (induction vals arbitrary: ps lv upd) (auto simp: Let_def setenv_def)

lemma populate_keeps_set: "p_env ps k \<noteq> None \<Longrightarrow> p_env (populate vals ov ps) k \<noteq> None"
proof -
  assume a: "p_env ps k \<noteq> None"
  obtain ps' lv upd where r: "populate_loop vals ov (ps, loadedVars (p_env ps), False) = (ps', lv, upd)"
    by (cases "populate_loop vals ov (ps, loadedVars (p_env ps), False)")
  have "p_env (fst (populate_loop vals ov (ps, loadedVars (p_env ps), False))) k \<noteq> None"
    using a by (rule populate_loop_dom)
  then have "p_env ps' k \<noteq> None" unfolding r by simp
  then show ?thesis by (simp add: populate_def r setenv_def)
qed

lemma populate_default_env:
  "p_env ps k = None \<Longrightarrow> k \<noteq> SENTINEL_VARS \<Longrightarrow> p_env (populate [(k, d)] ov ps) k = Some d"
  by (simp add: populate_def Let_def setenv_def)

lemma loadBuffer_keeps_set:
  assumes "loadBuffer n w buf file ov ps = Some (Inr ps')" and "p_env ps k \<noteq> None"
  shows "p_env ps' k \<noteq> None"
proof -
  obtain parsed l where "ps' = populate parsed ov (ps\<lparr>p_loaded := l\<rparr>)"
    using assms(1) by (auto simp: loadBuffer_def split: if_splits option.splits sum.splits)
  then show ?thesis
    using populate_keeps_set[where ps="ps\<lparr>p_loaded := l\<rparr>" and k=k] assms(2) by simp
qed

lemma loadEnv_refines:
  assumes k: "k = (case envKey of None \<Rightarrow> this_envKey | Some e \<Rightarrow> e)" and ns: "k \<noteq> SENTINEL_VARS"
  shows "loadEnv n w this_envKey p envKey defaultEnv testEnvs ov ps0
       = loadEnv_spec n w p k defaultEnv testEnvs ov ps0"
proof -
  let ?ps = "setenv SENTINEL_PATH p ps0"
  let ?first = "(case tryReadFile w p of
              Some buf \<Rightarrow> loadBuffer n w buf p ov ?ps
            | None \<Rightarrow>
                (case (if tryReadFile w p = None then tryReadFile w (p @ ''.dist'') else None) of
                   Some buf \<Rightarrow> loadBuffer n w buf (p @ ''.dist'') ov ?ps
                 | None \<Rightarrow> Some (Inl (PathError p))))"
  have spec0: "(if readFile w p \<noteq> None then load_if_present n w p ov ?ps
          else if readFile w (p @ ''.dist'') \<noteq> None then load_if_present n w (p @ ''.dist'') ov ?ps
          else Some (Some (PathError p), ?ps))
        = (case ?first of None \<Rightarrow> None | Some (Inl e) \<Rightarrow> Some (Some e, ?ps)
           | Some (Inr ps1) \<Rightarrow> Some (None, ps1))"
    by (cases "readFile w p"; cases "readFile w (p @ ''.dist'')")
       (simp_all add: load_if_present_def tryReadFile_def split: option.splits sum.splits)
  show ?thesis
  proof (cases ?first)
    case None
    have "loadEnv n w this_envKey p envKey defaultEnv testEnvs ov ps0 = None"
      unfolding loadEnv_def Let_def populatePath_def None by simp
    moreover have "loadEnv_spec n w p k defaultEnv testEnvs ov ps0 = None"
      unfolding loadEnv_spec_def spec0 None by (simp add: and_then_def)
    ultimately show ?thesis by simp
  next
    case (Some r)
    show ?thesis
    proof (cases r)
      case (Inl e)
      have f: "?first = Some (Inl e)" using Some Inl by simp
      have "loadEnv n w this_envKey p envKey defaultEnv testEnvs ov ps0 = Some (Some e, ?ps)"
        unfolding loadEnv_def Let_def populatePath_def f by simp
      moreover have "loadEnv_spec n w p k defaultEnv testEnvs ov ps0 = Some (Some e, ?ps)"
        unfolding loadEnv_spec_def spec0 f by (simp add: and_then_def)
      ultimately show ?thesis by simp
    next
      case (Inr ps1)
      define ps2 where "ps2 = (if p_env ps1 k = None then populate [(k, defaultEnv)] ov ps1 else ps1)"
      define env where "env = (case p_env ps1 k of None \<Rightarrow> defaultEnv | Some e \<Rightarrow> e)"
      have pe2k: "p_env ps2 k = Some env"
        using ns by (auto simp: ps2_def env_def populate_default_env)
      have envof: "env_of k ps2 = env" using pe2k by (simp add: env_of_def)
      have f: "?first = Some (Inr ps1)" using Some Inr by simp
      have ep: "(case p_env ps1 k of None \<Rightarrow> (defaultEnv, populate [(k, defaultEnv)] ov ps1)
                 | Some e \<Rightarrow> (e, ps1)) = (env, ps2)"
        by (simp add: env_def ps2_def split: option.splits)
      have step1: "(if readFile w p \<noteq> None then load_if_present n w p ov ?ps
          else if readFile w (p @ ''.dist'') \<noteq> None then load_if_present n w (p @ ''.dist'') ov ?ps
          else Some (Some (PathError p), ?ps)) = Some (None, ps1)"
        using Some Inr unfolding spec0 by simp
      have code1: "loadEnv n w this_envKey p envKey defaultEnv testEnvs ov ps0 =
         (let localBuf = (if env \<notin> set testEnvs then tryReadFile w (p @ ''.local'') else None)
          in
          case (case localBuf of
                  Some buf \<Rightarrow>
                    (case loadBuffer n w buf (p @ ''.local'') ov ps2 of
                       None \<Rightarrow> None
                     | Some (Inl e) \<Rightarrow> Some (Inl e)
                     | Some (Inr ps3) \<Rightarrow>
                         Some (Inr (case p_env ps3 k of Some e \<Rightarrow> e | None \<Rightarrow> env, ps3)))
                | None \<Rightarrow> Some (Inr (env, ps2))) of
            None \<Rightarrow> None
          | Some (Inl e) \<Rightarrow> Some (Some e, ps2)
          | Some (Inr (env', ps3)) \<Rightarrow>
              if env' = ''local'' then Some (None, ps3)
              else
                (case (case tryReadFile w (p @ ''.'' @ env') of
                         Some buf \<Rightarrow> loadBuffer n w buf (p @ ''.'' @ env') ov ps3
                       | None \<Rightarrow> Some (Inr ps3)) of
                   None \<Rightarrow> None
                 | Some (Inl e) \<Rightarrow> Some (Some e, ps3)
                 | Some (Inr ps4) \<Rightarrow>
                     (case (case tryReadFile w (p @ ''.'' @ env' @ ''.local'') of
                              Some buf \<Rightarrow>
                                loadBuffer n w buf (p @ ''.'' @ env' @ ''.local'') ov ps4
                            | None \<Rightarrow> Some (Inr ps4)) of
                        None \<Rightarrow> None
                      | Some (Inl e) \<Rightarrow> Some (Some e, ps4)
                      | Some (Inr ps5) \<Rightarrow> Some (None, ps5))))"
        unfolding loadEnv_def Let_def populatePath_def k[symmetric] f
        by (simp only: option.case sum.case ep prod.case)
      have tail: "(if env' = ''local'' then Some (None, ps3)
              else
                (case (case tryReadFile w (p @ ''.'' @ env') of
                         Some buf \<Rightarrow> loadBuffer n w buf (p @ ''.'' @ env') ov ps3
                       | None \<Rightarrow> Some (Inr ps3)) of
                   None \<Rightarrow> None
                 | Some (Inl e) \<Rightarrow> Some (Some e, ps3)
                 | Some (Inr ps4) \<Rightarrow>
                     (case (case tryReadFile w (p @ ''.'' @ env' @ ''.local'') of
                              Some buf \<Rightarrow>
                                loadBuffer n w buf (p @ ''.'' @ env' @ ''.local'') ov ps4
                            | None \<Rightarrow> Some (Inr ps4)) of
                        None \<Rightarrow> None
                      | Some (Inl e) \<Rightarrow> Some (Some e, ps4)
                      | Some (Inr ps5) \<Rightarrow> Some (None, ps5))))
         = (if env' = ''local'' then Some (None, ps3)
                else and_then
                  (load_if_present n w (p @ ''.'' @ env') ov ps3)
                  (\<lambda>ps4. load_if_present n w (p @ ''.'' @ env' @ ''.local'') ov ps4))"
        for env' ps3
        by (auto simp: and_then_def load_if_present_def tryReadFile_def split: option.splits sum.splits)
      have spec1: "loadEnv_spec n w p k defaultEnv testEnvs ov ps0 =
          and_then
             (if env \<notin> set testEnvs
              then load_if_present n w (p @ ''.local'') ov ps2
              else Some (None, ps2))
             (\<lambda>ps3.
                if env_of k ps3 = ''local'' then Some (None, ps3)
                else and_then
                  (load_if_present n w (p @ ''.'' @ env_of k ps3) ov ps3)
                  (\<lambda>ps4. load_if_present n w (p @ ''.'' @ env_of k ps3 @ ''.local'') ov ps4))"
        unfolding loadEnv_spec_def step1 
        by (simp add: and_then_def ps2_def[symmetric] envof)
      show ?thesis
      proof (cases "env \<notin> set testEnvs \<and> readFile w (p @ ''.local'') \<noteq> None")
        case False
        then have nl: "(if env \<notin> set testEnvs then tryReadFile w (p @ ''.local'') else None) = None"
          by (auto simp: tryReadFile_def)
        have sl: "(if env \<notin> set testEnvs
              then load_if_present n w (p @ ''.local'') ov ps2
              else Some (None, ps2)) = Some (None, ps2)"
          using False by (auto simp: load_if_present_def)
        show ?thesis
          unfolding code1 spec1 Let_def nl sl
          by (simp add: and_then_def envof tail)
      next
        case True
        then obtain buf where buf: "readFile w (p @ ''.local'') = Some buf" and nt: "env \<notin> set testEnvs"
          by auto
        have nl: "(if env \<notin> set testEnvs then tryReadFile w (p @ ''.local'') else None) = Some buf"
          using buf nt by (simp add: tryReadFile_def)
        have sl: "(if env \<notin> set testEnvs
              then load_if_present n w (p @ ''.local'') ov ps2
              else Some (None, ps2)) =
              (case loadBuffer n w buf (p @ ''.local'') ov ps2 of
                 None \<Rightarrow> None
               | Some (Inl e) \<Rightarrow> Some (Some e, ps2)
               | Some (Inr ps') \<Rightarrow> Some (None, ps'))"
          using buf nt by (simp add: load_if_present_def)
        show ?thesis
        proof (cases "loadBuffer n w buf (p @ ''.local'') ov ps2")
          case None
          then show ?thesis unfolding code1 spec1 Let_def nl sl by (simp add: and_then_def)
        next
          case (Some r3)
          show ?thesis
          proof (cases r3)
            case (Inl e)
            then show ?thesis using Some unfolding code1 spec1 Let_def nl sl
              by (simp add: and_then_def)
          next
            case (Inr ps3)
            have "p_env ps3 k \<noteq> None"
              using loadBuffer_keeps_set[of n w buf "p @ ''.local''" ov ps2 ps3 k] Some Inr pe2k
              by simp
            then have e3: "(case p_env ps3 k of Some e \<Rightarrow> e | None \<Rightarrow> env) = env_of k ps3"
              by (auto simp: env_of_def)
            show ?thesis using Some Inr unfolding code1 spec1 Let_def nl sl
              by (simp add: and_then_def e3 tail)
          qed
        qed
      qed
    qed
  qed
qed

text \<open>
  Claim C3. \<open>loadEnv\<close> is the precedence list of the specification, in that order:
  \<open>base\<close>, or \<open>base.dist\<close> when \<open>base\<close> is absent, a path error when neither exists; then the
  env key set to \<open>defaultEnv\<close> through \<open>populate\<close> when it is unset; then \<open>base.local\<close> when
  the current env is not in \<open>testEnvs\<close>; then nothing more when the env is \<open>local\<close>; otherwise
  \<open>base.env\<close> and then \<open>base.env.local\<close>, each file only when present. The current env is
  \<^verbatim>\<open>process_env[envKey]\<close> at that point of the list; the env key is any name other than the
  sentinel \<^verbatim>\<open>NODE_DOTENV_VARS\<close> (which \<open>populate\<close> itself rewrites). The two sides agree on
  the exception raised, on the process environment left behind and on the sequence of
  assignments made.
\<close>

theorem loadEnv_follows_precedence:
  "k = (case envKey of None \<Rightarrow> this_envKey | Some e \<Rightarrow> e) \<and> k \<noteq> SENTINEL_VARS \<longrightarrow>
   loadEnv n w this_envKey p envKey defaultEnv testEnvs ov ps
     = loadEnv_spec n w p k defaultEnv testEnvs ov ps"
  using loadEnv_refines[where k=k and envKey=envKey and this_envKey=this_envKey] by blast

theorem loadEnv_follows_precedence_witness:
  "''TEST_APP_ENV'' = (case Some ''TEST_APP_ENV'' of None \<Rightarrow> ''APP_ENV'' | Some e \<Rightarrow> e) \<and>
   ''TEST_APP_ENV'' \<noteq> SENTINEL_VARS \<and>
   loadEnv 50
     \<lparr>platform = ''linux'',
      spawnSync = (\<lambda>c e. \<lparr>sp_error = None, sp_status = Some 1, sp_stdout = [], sp_stderr = []\<rparr>),
      readFile = [''/b'' \<mapsto> ''FOO=BAR'' @ [LF] @ ''EXISTING_KEY=NEW_VALUE'',
                 ''/b.local'' \<mapsto> ''FOO=localBAR'',
                 ''/b.dev'' \<mapsto> ''FOO=devBAR'',
                 ''/b.dev.local'' \<mapsto> ''FOO=devlocalBAR''],
      toString_utf8 = (\<lambda>b. b)\<rparr>
     ''APP_ENV'' ''/b'' (Some ''TEST_APP_ENV'') ''dev'' [''test''] False
     \<lparr>p_env = [''EXISTING_KEY'' \<mapsto> ''EXISTING_VALUE''], p_writes = [], p_loaded = []\<rparr>
   = loadEnv_spec 50
     \<lparr>platform = ''linux'',
      spawnSync = (\<lambda>c e. \<lparr>sp_error = None, sp_status = Some 1, sp_stdout = [], sp_stderr = []\<rparr>),
      readFile = [''/b'' \<mapsto> ''FOO=BAR'' @ [LF] @ ''EXISTING_KEY=NEW_VALUE'',
                 ''/b.local'' \<mapsto> ''FOO=localBAR'',
                 ''/b.dev'' \<mapsto> ''FOO=devBAR'',
                 ''/b.dev.local'' \<mapsto> ''FOO=devlocalBAR''],
      toString_utf8 = (\<lambda>b. b)\<rparr>
     ''/b'' ''TEST_APP_ENV'' ''dev'' [''test''] False
     \<lparr>p_env = [''EXISTING_KEY'' \<mapsto> ''EXISTING_VALUE''], p_writes = [], p_loaded = []\<rparr> \<and>
   map fst (p_writes (snd (the (loadEnv 50
     \<lparr>platform = ''linux'',
      spawnSync = (\<lambda>c e. \<lparr>sp_error = None, sp_status = Some 1, sp_stdout = [], sp_stderr = []\<rparr>),
      readFile = [''/b'' \<mapsto> ''FOO=BAR'' @ [LF] @ ''EXISTING_KEY=NEW_VALUE'',
                 ''/b.local'' \<mapsto> ''FOO=localBAR'',
                 ''/b.dev'' \<mapsto> ''FOO=devBAR'',
                 ''/b.dev.local'' \<mapsto> ''FOO=devlocalBAR''],
      toString_utf8 = (\<lambda>b. b)\<rparr>
     ''APP_ENV'' ''/b'' (Some ''TEST_APP_ENV'') ''dev'' [''test''] False
     \<lparr>p_env = [''EXISTING_KEY'' \<mapsto> ''EXISTING_VALUE''], p_writes = [], p_loaded = []\<rparr>))))
   = [''NODE_DOTENV_PATH'', ''FOO'', ''NODE_DOTENV_VARS'', ''TEST_APP_ENV'', ''NODE_DOTENV_VARS'',
      ''FOO'', ''FOO'', ''FOO'']"
proof -
  have e: "map fst (p_writes (snd (the (loadEnv 50
     \<lparr>platform = ''linux'',
      spawnSync = (\<lambda>c e. \<lparr>sp_error = None, sp_status = Some 1, sp_stdout = [], sp_stderr = []\<rparr>),
      readFile = [''/b'' \<mapsto> ''FOO=BAR'' @ [LF] @ ''EXISTING_KEY=NEW_VALUE'',
                 ''/b.local'' \<mapsto> ''FOO=localBAR'',
                 ''/b.dev'' \<mapsto> ''FOO=devBAR'',
                 ''/b.dev.local'' \<mapsto> ''FOO=devlocalBAR''],
      toString_utf8 = (\<lambda>b. b)\<rparr>
     ''APP_ENV'' ''/b'' (Some ''TEST_APP_ENV'') ''dev'' [''test''] False
     \<lparr>p_env = [''EXISTING_KEY'' \<mapsto> ''EXISTING_VALUE''], p_writes = [], p_loaded = []\<rparr>))))
   = [''NODE_DOTENV_PATH'', ''FOO'', ''NODE_DOTENV_VARS'', ''TEST_APP_ENV'', ''NODE_DOTENV_VARS'',
      ''FOO'', ''FOO'', ''FOO'']"
    by code_simp
  show ?thesis
    using loadEnv_follows_precedence
      [where k="''TEST_APP_ENV''" and envKey="Some ''TEST_APP_ENV''" and this_envKey="''APP_ENV''"
         and n=50 and p="''/b''" and defaultEnv="''dev''" and testEnvs="[''test'']" and ov=False
         and w=
          "\<lparr>platform = ''linux'',
      spawnSync = (\<lambda>c e. \<lparr>sp_error = None, sp_status = Some 1, sp_stdout = [], sp_stderr = []\<rparr>),
      readFile = [''/b'' \<mapsto> ''FOO=BAR'' @ [LF] @ ''EXISTING_KEY=NEW_VALUE'',
                 ''/b.local'' \<mapsto> ''FOO=localBAR'',
                 ''/b.dev'' \<mapsto> ''FOO=devBAR'',
                 ''/b.dev.local'' \<mapsto> ''FOO=devlocalBAR''],
      toString_utf8 = (\<lambda>b. b)\<rparr>"
         and ps=
          "\<lparr>p_env = [''EXISTING_KEY'' \<mapsto> ''EXISTING_VALUE''], p_writes = [], p_loaded = []\<rparr>"] e
    by (simp add: SENTINEL_VARS_def)
qed

section \<open>Command substitution that fails\<close>

lemma executeCommand_failure:
  "platform w \<noteq> ''win32'' \<Longrightarrow>
   sp_error (spawnSync w content
      (fold (\<lambda>kv ce. if fst kv \<in> set loaded \<or> pe (fst kv) = None then ce(fst kv \<mapsto> snd kv) else ce)
         (values_f st) pe)) \<noteq> None
   \<or> sp_status (spawnSync w content
      (fold (\<lambda>kv ce. if fst kv \<in> set loaded \<or> pe (fst kv) = None then ce(fst kv \<mapsto> snd kv) else ce)
         (values_f st) pe)) \<noteq> Some 0 \<Longrightarrow>
   \<exists>msg. executeCommand w loaded pe st content = Inl (createFormatError st msg)"
  by (auto simp: executeCommand_def Let_def)

text \<open>
  Claim C1 does not hold of the code. In a double-quoted value the command of \<^verbatim>\<open>$(...)\<close> is
  run; when the shell exits with status 1, \<open>executeCommand\<close> raises a format error, nothing
  catches it, and \<open>parse\<close> raises it: the literal \<^verbatim>\<open>$(exit 1)\<close> is not kept and the parse does
  not complete.
\<close>

theorem command_failure_raises:
  "parse 20
     \<lparr>platform = ''linux'',
      spawnSync = (\<lambda>c e. \<lparr>sp_error = None, sp_status = Some 1, sp_stdout = [], sp_stderr = []\<rparr>),
      readFile = Map.empty,
      toString_utf8 = (\<lambda>b. b)\<rparr>
     Map.empty (''FOO='' @ [DQ] @ ''$(exit 1)'' @ [DQ]) ''.env''
   = Some (Inl (FormatError ''Issue expanding a command ()'' ''.env'' 1 15))"
  by code_simp


section \<open>Properties of placeholder resolution\<close>



lemma lower_percent: "ascii_lower (CHR ''%'') = CHR ''%''"
  by code_simp





























lemma placeholder_Cons: "placeholder ty name = CHR ''%'' # tl (placeholder ty name)"
  by (simp add: placeholder_def)







section \<open>The sentinel after a cascade\<close>

lemma match_varname_idem: "match_varname s = Some n \<Longrightarrow> match_varname n = Some n"
  by (auto simp: match_varname_def split: list.splits if_splits dest: set_takeWhileD)

lemma keys_valid_update:
  "keys_valid vals \<Longrightarrow> match_varname k = Some k \<Longrightarrow> keys_valid (AList.update k v vals)"
  by (auto simp: keys_valid_def dom_update)

lemma skip_to_newline_values: "values_f (skip_to_newline st) = values_f st"
proof (induction st rule: skip_to_newline.induct)
  case (1 st)
  show ?case
  proof (cases "cursor st < end_f st \<and> at (data_f st) (cursor st) \<noteq> Some LF")
    case True
    then have "skip_to_newline st = skip_to_newline (st\<lparr>cursor := cursor st + 1\<rparr>)"
      by (subst skip_to_newline.simps) simp
    then show ?thesis using 1[OF True] by simp
  next
    case False
    then have "skip_to_newline st = st" by (subst skip_to_newline.simps) auto
    then show ?thesis by simp
  qed
qed

lemma skipEmptyLines_values: "values_f (skipEmptyLines st) = values_f st"
proof (induction st rule: skipEmptyLines.induct)
  case (1 st)
  show ?case
    by (subst skipEmptyLines.simps)
       (use 1 in \<open>auto simp: Let_def skip_to_newline_values\<close>)
qed

lemma lexVarname_values:
  "lexVarname st = Inr (name, st') \<Longrightarrow> values_f st' = values_f st \<and> match_varname name = Some name"
  by (auto simp: lexVarname_def Let_def moveCursor_def split: option.splits if_splits
           dest: match_varname_idem)

lemma match_variable_name:
  assumes "match_variable s = Some (m, rest)" "vm_name m = Some nm"
  shows "match_varname nm = Some nm"
proof -
  obtain s3 where "vm_name m = match_varname s3"
    using assms(1)
    by (auto simp: match_variable_def Let_def case_prod_unfold split: list.splits if_splits)
  then show ?thesis using assms(2) match_varname_idem by metis
qed

lemma replace_variable_values:
  assumes "replace_variable loaded pe st m = Inr (rep, st')"
  shows "values_f st' = values_f st
       \<or> (\<exists>name d. vm_name m = Some name \<and> values_f st' = AList.update name d (values_f st))"
  using assms
  by (auto simp: replace_variable_def Let_def split: if_splits option.splits)

lemma resolveVariables_scan_valid:
  "resolveVariables_scan loaded pe prev s st = Inr (out, st') \<Longrightarrow> keys_valid (values_f st)
   \<Longrightarrow> keys_valid (values_f st')"
proof (induction loaded pe prev s st arbitrary: out st' rule: resolveVariables_scan.induct)
  case (1 loaded pe prev st)
  then show ?case by simp
next
  case (2 loaded pe prev c cs st)
  show ?case
  proof (cases "if prev then None else match_variable (c # cs)")
    case None
    then obtain o2 where "resolveVariables_scan loaded pe (c = BSL) cs st = Inr (o2, st')"
      using "2.prems"(1) by (auto split: sum.splits)
    then show ?thesis using "2.IH"(1)[OF None] "2.prems"(2) by blast
  next
    case (Some mr)
    obtain m rest where mr: "mr = (m, rest)" by (cases mr)
    have mv: "match_variable (c # cs) = Some (m, rest)" using Some mr by (auto split: if_splits)
    obtain rep st1 where r: "replace_variable loaded pe st m = Inr (rep, st1)"
      using "2.prems"(1) Some mr by (auto split: sum.splits)
    then obtain o2 where sc: "resolveVariables_scan loaded pe (last (vm_text m) = BSL) rest st1 = Inr (o2, st')"
      using "2.prems"(1) Some mr by (auto split: sum.splits)
    have "keys_valid (values_f st1)"
      using replace_variable_values[OF r] "2.prems"(2) match_variable_name[OF mv]
      by (auto intro: keys_valid_update)
    then show ?thesis using "2.IH"(2)[OF Some mr[symmetric] r refl sc] by blast
  qed
qed

lemma resolveVariables_valid:
  "resolveVariables loaded pe s st = Inr (out, st') \<Longrightarrow> keys_valid (values_f st)
   \<Longrightarrow> keys_valid (values_f st')"
  by (auto simp: resolveVariables_def split: if_splits dest: resolveVariables_scan_valid)

lemma single_quoted_values: "single_quoted st = Inr (v, st') \<Longrightarrow> values_f st' = values_f st"
  by (auto simp: single_quoted_def split: sum.splits)

lemma double_quote_scan_values:
  "double_quote_scan st inner = Inr (v, st') \<Longrightarrow> values_f st' = values_f st"
proof (induction st inner arbitrary: v st' rule: double_quote_scan.induct)
  case (1 st inner)
  show ?case
  proof (cases "cursor st \<ge> end_f st")
    case True
    then show ?thesis using "1.prems" by (subst (asm) double_quote_scan.simps) simp
  next
    case ge: False
    show ?thesis
    proof (cases "at (data_f st) (cursor st) = Some DQ
              \<and> length (takeWhile (\<lambda>c. c = BSL) (rev inner)) mod 2 = 0")
      case True
      then have "st' = st" using "1.prems" ge by (subst (asm) double_quote_scan.simps) simp
      then show ?thesis by simp
    next
      case False
      have "double_quote_scan (st\<lparr>cursor := cursor st + 1\<rparr>)
             (inner @ (case at (data_f st) (cursor st) of Some c \<Rightarrow> [c] | None \<Rightarrow> [])) = Inr (v, st')"
        using "1.prems" ge False by (subst (asm) double_quote_scan.simps) simp
      from "1.IH"[OF ge False this] show ?thesis by simp
    qed
  qed
qed

lemma double_quoted_valid:
  "double_quoted w loaded pe st = Inr (v, st') \<Longrightarrow> keys_valid (values_f st)
   \<Longrightarrow> keys_valid (values_f st')"
  by (auto simp: double_quoted_def Let_def split: if_splits sum.splits
           dest!: double_quote_scan_values resolveVariables_valid)

lemma lexNested_loop_values:
  "lexNested_loop n st out = Some (Inr (v, st')) \<Longrightarrow> values_f st' = values_f st"
proof (induction n arbitrary: st out v st')
  case 0
  then show ?case by simp
next
  case (Suc n)
  let ?ch = "at (data_f st) (cursor st)"
  show ?case
  proof (cases "?ch \<noteq> Some LF \<and> ?ch \<noteq> Some (CHR '')'')")
    case False
    then show ?thesis using Suc.prems by (auto simp: Let_def split: if_splits)
  next
    case True
    let ?out1 = "out @ (case ?ch of Some c \<Rightarrow> [c] | None \<Rightarrow> [])"
    let ?mid = "(if ?ch = Some (CHR ''('') then
                 (case lexNested_loop n (st\<lparr>cursor := cursor st + 1\<rparr>) [] of
                    None \<Rightarrow> None
                  | Some (Inl e) \<Rightarrow> Some (Inl e)
                  | Some (Inr (inner, st')) \<Rightarrow> Some (Inr (?out1 @ inner @ '')'', st')))
               else Some (Inr (?out1, st)))"
    obtain out2 st2 where mid: "?mid = Some (Inr (out2, st2))"
      and rest: "lexNested_loop n (st2\<lparr>cursor := cursor st2 + 1\<rparr>) out2 = Some (Inr (v, st'))"
      using Suc.prems True
      by (simp add: Let_def split: option.splits sum.splits if_splits prod.splits)
    have "values_f st2 = values_f st"
      using mid Suc.IH[of "st\<lparr>cursor := cursor st + 1\<rparr>" "[]"]
      by (auto split: if_splits option.splits sum.splits)
    moreover have "values_f st' = values_f st2" using Suc.IH[OF rest] by simp
    ultimately show ?thesis by simp
  qed
qed

lemma bare_loop_values:
  "bare_loop n st prev bare = Some (Inr (v, st')) \<Longrightarrow> values_f st' = values_f st"
proof (induction n arbitrary: st prev bare v st')
  case 0
  then show ?case by simp
next
  case (Suc n)
  show ?case
    using Suc.prems
    by (auto simp: Let_def lexNestedExpression_def split: if_splits option.splits sum.splits
             dest!: Suc.IH lexNested_loop_values)
qed

lemma bare_value_valid:
  "bare_value n w loaded pe st = Some (Inr (v, st', brk)) \<Longrightarrow> keys_valid (values_f st)
   \<Longrightarrow> keys_valid (values_f st')"
  by (auto simp: bare_value_def Let_def skip_to_newline_values
           split: if_splits option.splits sum.splits
           dest!: bare_loop_values resolveVariables_valid)

lemma lexValue_loop_valid:
  "lexValue_loop n w loaded pe st chunks = Some (Inr (v, st')) \<Longrightarrow> keys_valid (values_f st)
   \<Longrightarrow> keys_valid (values_f st')"
proof (induction n arbitrary: st chunks v st')
  case 0
  then show ?case by simp
next
  case (Suc n)
  let ?ch = "at (data_f st) (cursor st)"
  let ?seg = "(if ?ch = Some SQ then
              (case single_quoted st of
                 Inl e \<Rightarrow> Some (Inl e)
               | Inr (v, st') \<Rightarrow> Some (Inr (v, st', False)))
            else if ?ch = Some DQ then
              (case double_quoted w loaded pe st of
                 Inl e \<Rightarrow> Some (Inl e)
               | Inr (v, st') \<Rightarrow> Some (Inr (v, st', False)))
            else bare_value n w loaded pe st)"
  obtain v1 st1 brk where seg: "?seg = Some (Inr (v1, st1, brk))"
    and rest: "(if \<not> brk \<and> cursor st1 < end_f st1 \<and> at (data_f st1) (cursor st1) \<noteq> Some LF
          then lexValue_loop n w loaded pe st1 (chunks @ v1)
          else Some (Inr (chunks @ v1, st1))) = Some (Inr (v, st'))"
    using Suc.prems(1) by (simp add: Let_def split: option.splits sum.splits prod.splits)
  have "keys_valid (values_f st1)"
    using seg Suc.prems(2)
    by (auto split: if_splits sum.splits
             dest: single_quoted_values double_quoted_valid bare_value_valid)
  then show ?case using rest Suc.IH by (auto split: if_splits)
qed

lemma lexValue_valid:
  "lexValue n w pe st = Some (Inr (v, st')) \<Longrightarrow> keys_valid (values_f st)
   \<Longrightarrow> keys_valid (values_f st')"
  by (auto simp: lexValue_def skipEmptyLines_values moveCursor_def
           split: option.splits if_splits sum.splits dest: lexValue_loop_valid)

lemma parse_loop_valid:
  "parse_loop n w pe st state name = Some (Inr (st', state', name')) \<Longrightarrow>
   keys_valid (values_f st) \<Longrightarrow> (state = STATE_VALUE \<longrightarrow> match_varname name = Some name) \<Longrightarrow>
   keys_valid (values_f st') \<and> (state' = STATE_VALUE \<longrightarrow> match_varname name' = Some name')"
proof (induction n arbitrary: st state name)
  case 0
  then show ?case by simp
next
  case (Suc n)
  show ?case
  proof (cases "cursor st < end_f st")
    case False
    then show ?thesis using Suc.prems by simp
  next
    case True
    show ?thesis
    proof (cases state)
      case STATE_VARNAME
      then obtain nm st1 where lv: "lexVarname st = Inr (nm, st1)"
        and rest: "parse_loop n w pe st1 STATE_VALUE nm = Some (Inr (st', state', name'))"
        using Suc.prems(1) True by (auto split: sum.splits)
      have "keys_valid (values_f st1)" "match_varname nm = Some nm"
        using lexVarname_values[OF lv] Suc.prems(2) by simp_all
      then show ?thesis using Suc.IH[OF rest] by simp
    next
      case STATE_VALUE
      then obtain v st1 where lv: "lexValue n w pe st = Some (Inr (v, st1))"
        and rest: "parse_loop n w pe (st1\<lparr>values_f := AList.update name v (values_f st1)\<rparr>)
                     STATE_VARNAME name = Some (Inr (st', state', name'))"
        using Suc.prems(1) True by (auto split: sum.splits option.splits)
      have "keys_valid (values_f st1)" using lexValue_valid[OF lv] Suc.prems(2) by simp
      then have "keys_valid (values_f (st1\<lparr>values_f := AList.update name v (values_f st1)\<rparr>))"
        using Suc.prems(3) STATE_VALUE by (simp add: keys_valid_update)
      then show ?thesis using Suc.IH[OF rest] by simp
    qed
  qed
qed

lemma parse_keys_valid:
  assumes "parse n w pe dat filepath = Some (Inr vals)"
  shows "keys_valid vals"
proof -
  let ?dat = "(if CR \<in> set dat then replace2 CR LF [LF] dat else dat)"
  let ?st0 = "\<lparr>path_f = filepath, data_f = ?dat, cursor = 0, lineno = 1,
                 end_f = length ?dat, values_f = []\<rparr>"
  obtain st state name where pl: "parse_loop n w pe (skipEmptyLines ?st0) STATE_VARNAME [] = Some (Inr (st, state, name))"
    and v: "vals = (if state = STATE_VALUE then AList.update name [] (values_f st) else values_f st)"
    using assms by (auto simp: parse_def Let_def split: option.splits sum.splits)
  have "keys_valid (values_f (skipEmptyLines ?st0))"
    by (simp add: skipEmptyLines_values keys_valid_def)
  from parse_loop_valid[OF pl this] have "keys_valid (values_f st)"
    and "state = STATE_VALUE \<longrightarrow> match_varname name = Some name" by simp_all
  then show ?thesis unfolding v by (auto simp: keys_valid_update)
qed

lemma dropWhile_hd: "xs = [] \<or> \<not> P (hd xs) \<Longrightarrow> dropWhile P xs = xs"
  by (cases xs) auto

lemma js_trim_fix:
  assumes "t = [] \<or> (\<not> is_js_space (hd t) \<and> \<not> is_js_space (last t))"
  shows "js_trim t = t"
proof (cases t)
  case Nil
  then show ?thesis by (simp add: js_trim_def)
next
  case (Cons a r)
  then have h: "\<not> is_js_space (hd t)" and l: "\<not> is_js_space (last t)" using assms by auto
  have d1: "dropWhile is_js_space t = t" using h by (intro dropWhile_hd) simp
  have "hd (rev t) = last t" using Cons by (simp add: hd_rev)
  then have d2: "dropWhile is_js_space (rev t) = rev t"
    using l by (intro dropWhile_hd) simp
  show ?thesis by (simp add: js_trim_def d1 d2)
qed

lemma js_trim_shape:
  "js_trim s = [] \<or> (\<not> is_js_space (hd (js_trim s)) \<and> \<not> is_js_space (last (js_trim s)))"
proof -
  define u where "u = dropWhile is_js_space s"
  define v where "v = dropWhile is_js_space (rev u)"
  have t: "js_trim s = rev v" by (simp add: js_trim_def u_def v_def)
  show ?thesis
  proof (cases "v = []")
    case True
    then show ?thesis by (simp add: t)
  next
    case False
    have hv: "\<not> is_js_space (hd v)" using False hd_dropWhile[of is_js_space "rev u"] by (simp add: v_def)
    have "u \<noteq> []" using False by (auto simp: v_def)
    then have hu: "\<not> is_js_space (hd u)" using hd_dropWhile[of is_js_space s] by (simp add: u_def)
    obtain pre where "rev u = pre @ v" 
      using takeWhile_dropWhile_id[of is_js_space "rev u"] unfolding v_def by metis
    then have "last v = last (rev u)" using False by simp
    also have "\<dots> = hd u" using \<open>u \<noteq> []\<close> by (simp add: last_rev)
    finally have lv: "\<not> is_js_space (last v)" using hu by simp
    have "hd (rev v) = last v" "last (rev v) = hd v" using False by (simp_all add: hd_rev last_rev)
    then show ?thesis using hv lv by (simp add: t)
  qed
qed

lemma js_trim_idem: "js_trim (js_trim s) = js_trim s"
  using js_trim_shape[of s] by (rule js_trim_fix)

lemma js_trim_subset: "set (js_trim s) \<subseteq> set s"
proof -
  have "set (dropWhile is_js_space (rev (dropWhile is_js_space s))) \<subseteq> set (rev (dropWhile is_js_space s))"
    by (meson set_dropWhileD subsetI)
  also have "\<dots> \<subseteq> set s" by (auto dest: set_dropWhileD)
  finally show ?thesis by (simp add: js_trim_def)
qed

lemma js_split_no_sep: "x \<in> set (js_split c s) \<Longrightarrow> c \<notin> set x"
proof (induction s arbitrary: x)
  case Nil
  then show ?case by simp
next
  case (Cons a s)
  show ?case
  proof (cases "a = c")
    case True
    then show ?thesis using Cons by auto
  next
    case False
    then show ?thesis using Cons by (cases "js_split c s") auto
  qed
qed

lemma js_split_nonempty: "js_split c s \<noteq> []"
  by (induction s) (auto split: list.splits)

lemma js_split_plain: "c \<notin> set x \<Longrightarrow> js_split c x = [x]"
  by (induction x) auto

lemma js_split_append:
  "c \<notin> set x \<Longrightarrow> js_split c (x @ c # s) = x # js_split c s"
  by (induction x) auto

lemma js_split_join:
  "xs \<noteq> [] \<Longrightarrow> \<forall>x \<in> set xs. c \<notin> set x \<Longrightarrow> js_split c (js_join [c] xs) = xs"
proof (induction xs rule: list_nonempty_induct)
  case (single x)
  then show ?case by (simp add: js_split_plain)
next
  case (cons x xs)
  obtain y ys where xs: "xs = y # ys" using cons.hyps by (cases xs) auto
  have "js_join [c] (x # xs) = x @ c # js_join [c] xs" by (simp add: xs)
  then show ?case using cons by (simp add: js_split_append)
qed

lemma fold_set_add_distinct:
  "distinct (acc @ xs) \<Longrightarrow> fold set_add xs acc = acc @ xs"
  by (induction xs arbitrary: acc) (auto simp: set_add_def)

lemma fold_set_add_props:
  "distinct acc \<Longrightarrow> distinct (fold set_add xs acc) \<and> set (fold set_add xs acc) = set acc \<union> set xs"
  by (induction xs arbitrary: acc) (auto simp: set_add_def)

lemma fold_set_add_nil:
  "distinct (fold set_add xs []) \<and> set (fold set_add xs []) = set xs"
  using fold_set_add_props[of "[]" xs] by simp

lemma loadedVars_clean: "x \<in> set (loadedVars pe) \<Longrightarrow> clean_name x"
proof -
  assume "x \<in> set (loadedVars pe)"
  then obtain y where y: "y \<in> set (js_split CHR '','' (case pe SENTINEL_VARS of None \<Rightarrow> [] | Some s \<Rightarrow> s))"
    and x: "x = js_trim y" "x \<noteq> []"
    by (auto simp: loadedVars_def fold_set_add_nil)
  have "CHR '','' \<notin> set y" using y by (rule js_split_no_sep)
  then have "CHR '','' \<notin> set x" using js_trim_subset[of y] x by auto
  then show ?thesis using x by (simp add: clean_name_def js_trim_idem)
qed

lemma loadedVars_distinct: "distinct (loadedVars pe)"
  by (simp add: loadedVars_def fold_set_add_nil)

lemma loadedVars_join:
  assumes "distinct lv" "\<forall>x \<in> set lv. clean_name x"
  shows "loadedVars (pe(SENTINEL_VARS \<mapsto> js_join '','' lv)) = lv"
proof (cases "lv = []")
  case True
  then show ?thesis by (simp add: loadedVars_def js_trim_def)
next
  case False
  have nc: "\<forall>x \<in> set lv. CHR '','' \<notin> set x" using assms(2) by (simp add: clean_name_def)
  have s: "js_split CHR '','' (js_join '','' lv) = lv" using js_split_join[OF False nc] .
  have t: "map js_trim lv = lv" using assms(2) by (intro map_idI) (simp add: clean_name_def)
  have f: "filter (\<lambda>s. s \<noteq> []) lv = lv" using assms(2) by (auto simp: clean_name_def)
  show ?thesis using assms(1) by (simp add: loadedVars_def s t f fold_set_add_distinct)
qed

lemma valid_name_clean: "match_varname k = Some k \<Longrightarrow> clean_name k"
proof -
  assume v: "match_varname k = Some k"
  have ne: "k \<noteq> []" and ch: "\<forall>c \<in> set k. is_name_char c" using match_varname_chars[OF v] by auto
  have "hd k \<in> set k" "last k \<in> set k" using ne by simp_all
  then have "\<not> is_js_space (hd k)" "\<not> is_js_space (last k)"
    using ch is_name_char_not_special by blast+
  then have "js_trim k = k" by (intro js_trim_fix) simp
  moreover have "CHR '','' \<notin> set k" using ch is_name_char_not_special by blast
  ultimately show ?thesis using ne by (simp add: clean_name_def)
qed

lemma loadedVars_cong: "pe SENTINEL_VARS = pe' SENTINEL_VARS \<Longrightarrow> loadedVars pe = loadedVars pe'"
  by (simp add: loadedVars_def)

lemma tracks_refl: "sentinel_tracks ps ps"
  by (simp add: sentinel_tracks_def)

lemma tracks_trans:
  assumes "sentinel_tracks a b" "sentinel_tracks b c"
  shows "sentinel_tracks a c"
proof -
  obtain n1 where n1: "p_writes b = p_writes a @ n1"
    "\<forall>x \<in> fst ` set n1. x = SENTINEL_VARS \<or> x = SENTINEL_PATH \<or> x \<in> set (loadedVars (p_env b))"
    and m1: "set (loadedVars (p_env a)) \<subseteq> set (loadedVars (p_env b))"
    using assms(1) by (auto simp: sentinel_tracks_def)
  obtain n2 where n2: "p_writes c = p_writes b @ n2"
    "\<forall>x \<in> fst ` set n2. x = SENTINEL_VARS \<or> x = SENTINEL_PATH \<or> x \<in> set (loadedVars (p_env c))"
    and m2: "set (loadedVars (p_env b)) \<subseteq> set (loadedVars (p_env c))"
    using assms(2) by (auto simp: sentinel_tracks_def)
  have w: "p_writes c = p_writes a @ (n1 @ n2)" using n1(1) n2(1) by simp
  have "\<forall>x \<in> fst ` set (n1 @ n2). x = SENTINEL_VARS \<or> x = SENTINEL_PATH \<or> x \<in> set (loadedVars (p_env c))"
    using n1(2) n2(2) m2 by auto
  then show ?thesis unfolding sentinel_tracks_def using w m1 m2 by blast
qed

lemma tracks_setenv_path: "sentinel_tracks ps (setenv SENTINEL_PATH p ps)"
proof -
  have "loadedVars (p_env (setenv SENTINEL_PATH p ps)) = loadedVars (p_env ps)"
    by (rule loadedVars_cong) (simp add: setenv_def SENTINEL_PATH_def SENTINEL_VARS_def)
  then show ?thesis by (simp add: sentinel_tracks_def setenv_def)
qed

lemma populate_loop_track:
  "populate_loop vals ov (ps, lv, upd) = (ps', lv', upd') \<Longrightarrow>
   (\<exists>new. p_writes ps' = p_writes ps @ new \<and> fst ` set new \<subseteq> set lv') \<and>
   set lv \<subseteq> set lv' \<and> set lv' \<subseteq> set lv \<union> fst ` set vals \<and>
   (distinct lv \<longrightarrow> distinct lv') \<and> (\<not> upd' \<longrightarrow> lv' = lv)"
proof (induction vals arbitrary: ps lv upd)
  case Nil
  then show ?case by simp
next
  case (Cons e rest)
  obtain n x where e: "e = (n, x)" by (cases e)
  show ?case
  proof (cases "n \<notin> set lv \<and> \<not> ov \<and> p_env ps n \<noteq> None")
    case True
    have "populate_loop (e # rest) ov (ps, lv, upd) = populate_loop rest ov (ps, lv, upd)"
      unfolding e populate_loop_step by (rule if_P[OF True])
    then have "populate_loop rest ov (ps, lv, upd) = (ps', lv', upd')" using Cons.prems by simp
    from Cons.IH[OF this] show ?thesis by auto
  next
    case False
    let ?lv = "if n \<in> set lv then lv else set_add n lv"
    let ?upd = "if n \<in> set lv then upd else True"
    have "populate_loop (e # rest) ov (ps, lv, upd) = populate_loop rest ov (setenv n x ps, ?lv, ?upd)"
      unfolding e populate_loop_step by (rule if_not_P[OF False])
    then have r: "populate_loop rest ov (setenv n x ps, ?lv, ?upd) = (ps', lv', upd')"
      using Cons.prems by simp
    note IH = Cons.IH[OF r]
    obtain new where new: "p_writes ps' = p_writes (setenv n x ps) @ new" "fst ` set new \<subseteq> set lv'"
      using IH by blast
    have sub: "set ?lv \<subseteq> set lv'" using IH by blast
    have nin: "n \<in> set ?lv" by (simp add: set_add_def)
    have w: "p_writes ps' = p_writes ps @ ((n, x) # new)" using new(1) by (simp add: setenv_def)
    have k: "fst ` set ((n, x) # new) \<subseteq> set lv'" using new(2) sub nin by auto
    have a: "set lv \<subseteq> set lv'" using sub by (auto simp: set_add_def split: if_splits)
    have b: "set lv' \<subseteq> set lv \<union> fst ` set (e # rest)"
      using IH by (auto simp: set_add_def e split: if_splits)
    have c: "distinct lv \<longrightarrow> distinct lv'" using IH by (auto simp: set_add_def split: if_splits)
    have upd_mono: "snd (snd (populate_loop vs ov (q, l, True)))" for vs q l
      by (induction vs arbitrary: q l) (auto simp: Let_def)
    have d: "\<not> upd' \<longrightarrow> lv' = lv"
    proof (cases "n \<in> set lv")
      case True
      then show ?thesis using IH by simp
    next
      case nl: False
      then have "populate_loop rest ov (setenv n x ps, set_add n lv, True) = (ps', lv', upd')"
        using r by simp
      then have "upd'" using upd_mono[of rest "setenv n x ps" "set_add n lv"] by simp
      then show ?thesis by simp
    qed
    show ?thesis using w k a b c d by blast
  qed
qed

lemma tracks_populate:
  assumes good: "\<forall>k \<in> fst ` set vals. clean_name k \<and> k \<noteq> SENTINEL_VARS"
  shows "sentinel_tracks ps (populate vals ov ps)"
proof -
  let ?lv0 = "loadedVars (p_env ps)"
  obtain ps' lv' upd' where r: "populate_loop vals ov (ps, ?lv0, False) = (ps', lv', upd')"
    by (cases "populate_loop vals ov (ps, ?lv0, False)")
  note T = populate_loop_track[OF r]
  obtain new where new: "p_writes ps' = p_writes ps @ new" "fst ` set new \<subseteq> set lv'"
    using T by blast
  have sub: "set ?lv0 \<subseteq> set lv'" using T by blast
  have dist: "distinct lv'" using T loadedVars_distinct by blast
  have clean: "\<forall>x \<in> set lv'. clean_name x"
  proof
    fix x assume "x \<in> set lv'"
    then have "x \<in> set ?lv0 \<or> x \<in> fst ` set vals" using T by blast
    then show "clean_name x" using loadedVars_clean good by blast
  qed
  have sv: "SENTINEL_VARS \<notin> fst ` set vals" using good by blast
  have env_sv: "p_env ps' SENTINEL_VARS = p_env ps SENTINEL_VARS"
    using populate_loop_other[OF sv, of ov ps ?lv0 False] r by simp
  show ?thesis
  proof (cases upd')
    case True
    have p: "populate vals ov ps = setenv SENTINEL_VARS (js_join '','' lv') ps'"
      using True by (simp add: populate_def r)
    have lv: "loadedVars (p_env (populate vals ov ps)) = lv'"
      unfolding p using loadedVars_join[OF dist clean] by (simp add: setenv_def)
    have w: "p_writes (populate vals ov ps) = p_writes ps @ (new @ [(SENTINEL_VARS, js_join '','' lv')])"
      unfolding p using new(1) by (simp add: setenv_def)
    have "\<forall>x \<in> fst ` set (new @ [(SENTINEL_VARS, js_join '','' lv')]).
            x = SENTINEL_VARS \<or> x = SENTINEL_PATH \<or> x \<in> set lv'"
      using new(2) by auto
    then show ?thesis unfolding sentinel_tracks_def lv using w sub by blast
  next
    case False
    have p: "populate vals ov ps = ps'" using False by (simp add: populate_def r)
    have "lv' = ?lv0" using T False by blast
    moreover have "loadedVars (p_env ps') = ?lv0" using env_sv by (rule loadedVars_cong)
    ultimately have lv: "loadedVars (p_env (populate vals ov ps)) = lv'" unfolding p by simp
    show ?thesis unfolding sentinel_tracks_def lv using new sub unfolding p by blast
  qed
qed


lemma populate_loop_loaded:
  "p_loaded (fst (populate_loop vals ov (ps, lv, upd))) = p_loaded ps"
  by (induction vals arbitrary: ps lv upd) (auto simp: Let_def setenv_def)

lemma populate_loaded: "p_loaded (populate vals ov ps) = p_loaded ps"
proof -
  obtain ps' lv' upd' where r: "populate_loop vals ov (ps, loadedVars (p_env ps), False) = (ps', lv', upd')"
    by (cases "populate_loop vals ov (ps, loadedVars (p_env ps), False)")
  have "p_loaded ps' = p_loaded ps"
    using populate_loop_loaded[of vals ov ps "loadedVars (p_env ps)" False] by (simp add: r)
  then show ?thesis by (simp add: populate_def r setenv_def)
qed

lemma cascade_refl: "cascade_tracks ps ps"
  by (simp add: cascade_tracks_def tracks_refl)

lemma cascade_of_tracks:
  "sentinel_tracks ps ps' \<Longrightarrow> p_loaded ps' = p_loaded ps \<Longrightarrow> cascade_tracks ps ps'"
  by (simp add: cascade_tracks_def)

lemma cascade_trans:
  assumes "cascade_tracks a b" "cascade_tracks b c"
  shows "cascade_tracks a c"
proof -
  obtain n1 where n1: "p_loaded b = p_loaded a @ n1"
    "(\<forall>fv \<in> set n1. SENTINEL_VARS \<notin> fst ` set (snd fv)) \<longrightarrow> sentinel_tracks a b"
    using assms(1) unfolding cascade_tracks_def by blast
  obtain n2 where n2: "p_loaded c = p_loaded b @ n2"
    "(\<forall>fv \<in> set n2. SENTINEL_VARS \<notin> fst ` set (snd fv)) \<longrightarrow> sentinel_tracks b c"
    using assms(2) unfolding cascade_tracks_def by blast
  have l: "p_loaded c = p_loaded a @ (n1 @ n2)" using n1(1) n2(1) by simp
  have "(\<forall>fv \<in> set (n1 @ n2). SENTINEL_VARS \<notin> fst ` set (snd fv)) \<longrightarrow> sentinel_tracks a c"
  proof
    assume h: "\<forall>fv \<in> set (n1 @ n2). SENTINEL_VARS \<notin> fst ` set (snd fv)"
    then have "sentinel_tracks a b" and "sentinel_tracks b c" using n1(2) n2(2) by auto
    then show "sentinel_tracks a c" by (rule tracks_trans)
  qed
  then show ?thesis unfolding cascade_tracks_def using l by blast
qed

lemma tracks_ignores_loaded:
  "sentinel_tracks (ps\<lparr>p_loaded := l\<rparr>) ps' = sentinel_tracks ps ps'"
  by (simp add: sentinel_tracks_def)

lemma cascade_load_if_present:
  assumes "load_if_present n w file ov ps = Some (None, ps')"
  shows "cascade_tracks ps ps'"
proof (cases "readFile w file")
  case None
  then show ?thesis using assms by (simp add: load_if_present_def cascade_refl)
next
  case (Some buf)
  then obtain parsed where p: "parse n w (p_env ps) (toString_utf8 w buf) file = Some (Inr parsed)"
    and ps': "ps' = populate parsed ov (ps\<lparr>p_loaded := p_loaded ps @ [(file, parsed)]\<rparr>)"
    using assms
    by (auto simp: load_if_present_def loadBuffer_def split: if_splits option.splits sum.splits)
  have l: "p_loaded ps' = p_loaded ps @ [(file, parsed)]" unfolding ps' by (simp add: populate_loaded)
  have kv: "keys_valid parsed" using p by (rule parse_keys_valid)
  have "(\<forall>fv \<in> set [(file, parsed)]. SENTINEL_VARS \<notin> fst ` set (snd fv)) \<longrightarrow> sentinel_tracks ps ps'"
  proof
    assume "\<forall>fv \<in> set [(file, parsed)]. SENTINEL_VARS \<notin> fst ` set (snd fv)"
    then have "SENTINEL_VARS \<notin> fst ` set parsed" by simp
    then have "\<forall>k \<in> fst ` set parsed. clean_name k \<and> k \<noteq> SENTINEL_VARS"
      using kv unfolding keys_valid_def using valid_name_clean by blast
    then have "sentinel_tracks (ps\<lparr>p_loaded := p_loaded ps @ [(file, parsed)]\<rparr>) ps'"
      unfolding ps' by (rule tracks_populate)
    then show "sentinel_tracks ps ps'" by (simp only: tracks_ignores_loaded)
  qed
  then show ?thesis unfolding cascade_tracks_def using l by blast
qed

lemma and_then_Some:
  "and_then r f = Some (None, ps') \<Longrightarrow> \<exists>ps1. r = Some (None, ps1) \<and> f ps1 = Some (None, ps')"
  by (auto simp: and_then_def split: option.splits prod.splits)

lemma cascade_loadEnv_spec:
  assumes run: "loadEnv_spec n w base k defaultEnv testEnvs ov ps = Some (None, ps')"
    and k: "clean_name k" "k \<noteq> SENTINEL_VARS"
  shows "cascade_tracks ps ps'"
proof -
  let ?p0 = "setenv SENTINEL_PATH base ps"
  from and_then_Some[OF run[unfolded loadEnv_spec_def]]
  obtain ps1 where s1: "(if readFile w base \<noteq> None
        then load_if_present n w base ov ?p0
        else if readFile w (base @ ''.dist'') \<noteq> None
        then load_if_present n w (base @ ''.dist'') ov ?p0
        else Some (Some (PathError base), ?p0)) = Some (None, ps1)"
    and r1: "and_then
          (Some (None, if p_env ps1 k = None
                       then populate [(k, defaultEnv)] ov ps1 else ps1))
          (\<lambda>ps2. and_then
             (if env_of k ps2 \<notin> set testEnvs
              then load_if_present n w (base @ ''.local'') ov ps2
              else Some (None, ps2))
             (\<lambda>ps3.
                if env_of k ps3 = ''local'' then Some (None, ps3)
                else and_then
                  (load_if_present n w (base @ ''.'' @ env_of k ps3) ov ps3)
                  (\<lambda>ps4. load_if_present n w (base @ ''.'' @ env_of k ps3 @ ''.local'')
                            ov ps4))) = Some (None, ps')"
    by blast
  have t0: "cascade_tracks ps ?p0"
    by (rule cascade_of_tracks[OF tracks_setenv_path]) (simp add: setenv_def)
  have t1: "cascade_tracks ?p0 ps1"
    using s1 by (auto split: if_splits intro: cascade_load_if_present)
  define ps2 where "ps2 = (if p_env ps1 k = None then populate [(k, defaultEnv)] ov ps1 else ps1)"
  have "sentinel_tracks ps1 ps2"
    unfolding ps2_def using k by (auto intro: tracks_populate tracks_refl)
  moreover have "p_loaded ps2 = p_loaded ps1" unfolding ps2_def by (simp add: populate_loaded)
  ultimately have t2: "cascade_tracks ps1 ps2" by (rule cascade_of_tracks)
  from and_then_Some[OF r1] have r2: "and_then
             (if env_of k ps2 \<notin> set testEnvs
              then load_if_present n w (base @ ''.local'') ov ps2
              else Some (None, ps2))
             (\<lambda>ps3.
                if env_of k ps3 = ''local'' then Some (None, ps3)
                else and_then
                  (load_if_present n w (base @ ''.'' @ env_of k ps3) ov ps3)
                  (\<lambda>ps4. load_if_present n w (base @ ''.'' @ env_of k ps3 @ ''.local'')
                            ov ps4)) = Some (None, ps')"
    unfolding ps2_def by auto
  from and_then_Some[OF r2] obtain ps3 where s3: "(if env_of k ps2 \<notin> set testEnvs
              then load_if_present n w (base @ ''.local'') ov ps2
              else Some (None, ps2)) = Some (None, ps3)"
    and r3: "(if env_of k ps3 = ''local'' then Some (None, ps3)
                else and_then
                  (load_if_present n w (base @ ''.'' @ env_of k ps3) ov ps3)
                  (\<lambda>ps4. load_if_present n w (base @ ''.'' @ env_of k ps3 @ ''.local'')
                            ov ps4)) = Some (None, ps')"
    by blast
  have t3: "cascade_tracks ps2 ps3"
    using s3 by (auto split: if_splits intro: cascade_load_if_present cascade_refl)
  have t4: "cascade_tracks ps3 ps'"
  proof (cases "env_of k ps3 = ''local''")
    case True
    then show ?thesis using r3 by (simp add: cascade_refl)
  next
    case False
    then have "and_then
                  (load_if_present n w (base @ ''.'' @ env_of k ps3) ov ps3)
                  (\<lambda>ps4. load_if_present n w (base @ ''.'' @ env_of k ps3 @ ''.local'')
                            ov ps4) = Some (None, ps')"
      using r3 by simp
    from and_then_Some[OF this] obtain ps4 where
      a: "load_if_present n w (base @ ''.'' @ env_of k ps3) ov ps3 = Some (None, ps4)"
      and b: "load_if_present n w (base @ ''.'' @ env_of k ps3 @ ''.local'') ov ps4 = Some (None, ps')"
      by blast
    show ?thesis
      using cascade_load_if_present[OF a] cascade_load_if_present[OF b] by (rule cascade_trans)
  qed
  show ?thesis
    using t0 t1 t2 t3 t4 by (blast intro: cascade_trans)
qed

lemma run_without_error:
  "(case X of None \<Rightarrow> False | Some r \<Rightarrow> fst r = None) \<Longrightarrow> X = Some (None, snd (the X))"
  by (cases X) (auto simp: prod_eq_iff)

text \<open>
  Claim C9, as amended. When \<open>loadEnv\<close> completes without an exception, and none of the
  files this cascade has parsed assigns \<^verbatim>\<open>NODE_DOTENV_VARS\<close>, every key the cascade assigned
  is in the set read back from \<^verbatim>\<open>NODE_DOTENV_VARS\<close>, the two bookkeeping keys
  \<^verbatim>\<open>NODE_DOTENV_VARS\<close> and \<^verbatim>\<open>NODE_DOTENV_PATH\<close> apart; and every name that was in the set
  before the call is still in it afterwards, so the names of earlier cascades are kept. The
  env key is a name without comma or surrounding white space, other than the sentinel.
\<close>

theorem sentinel_tracks_written_keys:
  "loadEnv n w this_envKey p envKey defaultEnv testEnvs ov ps = Some (None, ps') \<and>
   k = (case envKey of None \<Rightarrow> this_envKey | Some e \<Rightarrow> e) \<and>
   clean_name k \<and> k \<noteq> SENTINEL_VARS \<and>
   list_all (\<lambda>fv. SENTINEL_VARS \<notin> set (map fst (snd fv))) (new_loaded ps ps') \<longrightarrow>
   (\<exists>new. p_writes ps' = p_writes ps @ new \<and>
      (\<forall>x \<in> fst ` set new. x = SENTINEL_VARS \<or> x = SENTINEL_PATH
                                \<or> x \<in> set (loadedVars (p_env ps')))) \<and>
   set (loadedVars (p_env ps)) \<subseteq> set (loadedVars (p_env ps'))"
proof
  assume h: "loadEnv n w this_envKey p envKey defaultEnv testEnvs ov ps = Some (None, ps') \<and>
   k = (case envKey of None \<Rightarrow> this_envKey | Some e \<Rightarrow> e) \<and>
   clean_name k \<and> k \<noteq> SENTINEL_VARS \<and>
   list_all (\<lambda>fv. SENTINEL_VARS \<notin> set (map fst (snd fv))) (new_loaded ps ps')"
  then have k: "k = (case envKey of None \<Rightarrow> this_envKey | Some e \<Rightarrow> e)" "k \<noteq> SENTINEL_VARS"
    and c: "clean_name k"
    and H: "list_all (\<lambda>fv. SENTINEL_VARS \<notin> set (map fst (snd fv))) (new_loaded ps ps')"
    by blast+
  have "loadEnv n w this_envKey p envKey defaultEnv testEnvs ov ps
          = loadEnv_spec n w p k defaultEnv testEnvs ov ps"
    using loadEnv_refines[where k=k and envKey=envKey and this_envKey=this_envKey] k by blast
  then have "loadEnv_spec n w p k defaultEnv testEnvs ov ps = Some (None, ps')" using h by simp
  then have "cascade_tracks ps ps'" using c k(2) by (rule cascade_loadEnv_spec)
  then obtain nl where nl: "p_loaded ps' = p_loaded ps @ nl"
    "(\<forall>fv \<in> set nl. SENTINEL_VARS \<notin> fst ` set (snd fv)) \<longrightarrow> sentinel_tracks ps ps'"
    unfolding cascade_tracks_def by blast
  have "new_loaded ps ps' = nl" by (simp add: new_loaded_def nl(1))
  then have "\<forall>fv \<in> set nl. SENTINEL_VARS \<notin> fst ` set (snd fv)"
    using H by (simp add: list_all_iff)
  then have "sentinel_tracks ps ps'" using nl(2) by blast
  then show "(\<exists>new. p_writes ps' = p_writes ps @ new \<and>
      (\<forall>x \<in> fst ` set new. x = SENTINEL_VARS \<or> x = SENTINEL_PATH
                                \<or> x \<in> set (loadedVars (p_env ps')))) \<and>
   set (loadedVars (p_env ps)) \<subseteq> set (loadedVars (p_env ps'))"
    unfolding sentinel_tracks_def .
qed

theorem sentinel_tracks_written_keys_witness:
  "(case loadEnv 50
      \<lparr>platform = ''linux'',
       spawnSync = (\<lambda>c e. \<lparr>sp_error = None, sp_status = Some 1, sp_stdout = [], sp_stderr = []\<rparr>),
       readFile = [''/b'' \<mapsto> ''FOO=BAR'' @ [LF] @ ''EXISTING_KEY=NEW_VALUE'',
                  ''/b.dev'' \<mapsto> ''BAZ=qux'',
                  ''/b.prod'' \<mapsto> ''NODE_DOTENV_VARS=x''],
       toString_utf8 = (\<lambda>b. b)\<rparr>
      ''APP_ENV'' ''/b'' None ''dev'' [''test''] False
      \<lparr>p_env = [''EXISTING_KEY'' \<mapsto> ''EXISTING_VALUE''], p_writes = [], p_loaded = []\<rparr>
    of None \<Rightarrow> False | Some r \<Rightarrow> fst r = None) \<and>
   ''APP_ENV'' = (case None of None \<Rightarrow> ''APP_ENV'' | Some e \<Rightarrow> e) \<and>
   clean_name ''APP_ENV'' \<and> ''APP_ENV'' \<noteq> SENTINEL_VARS \<and>
   list_all (\<lambda>fv. SENTINEL_VARS \<notin> set (map fst (snd fv)))
     (new_loaded \<lparr>p_env = [''EXISTING_KEY'' \<mapsto> ''EXISTING_VALUE''], p_writes = [], p_loaded = []\<rparr>
        (snd (the (loadEnv 50
      \<lparr>platform = ''linux'',
       spawnSync = (\<lambda>c e. \<lparr>sp_error = None, sp_status = Some 1, sp_stdout = [], sp_stderr = []\<rparr>),
       readFile = [''/b'' \<mapsto> ''FOO=BAR'' @ [LF] @ ''EXISTING_KEY=NEW_VALUE'',
                  ''/b.dev'' \<mapsto> ''BAZ=qux'',
                  ''/b.prod'' \<mapsto> ''NODE_DOTENV_VARS=x''],
       toString_utf8 = (\<lambda>b. b)\<rparr>
      ''APP_ENV'' ''/b'' None ''dev'' [''test''] False
      \<lparr>p_env = [''EXISTING_KEY'' \<mapsto> ''EXISTING_VALUE''], p_writes = [], p_loaded = []\<rparr>)))) \<and>
   map fst (p_loaded (snd (the (loadEnv 50
      \<lparr>platform = ''linux'',
       spawnSync = (\<lambda>c e. \<lparr>sp_error = None, sp_status = Some 1, sp_stdout = [], sp_stderr = []\<rparr>),
       readFile = [''/b'' \<mapsto> ''FOO=BAR'' @ [LF] @ ''EXISTING_KEY=NEW_VALUE'',
                  ''/b.dev'' \<mapsto> ''BAZ=qux'',
                  ''/b.prod'' \<mapsto> ''NODE_DOTENV_VARS=x''],
       toString_utf8 = (\<lambda>b. b)\<rparr>
      ''APP_ENV'' ''/b'' None ''dev'' [''test''] False
      \<lparr>p_env = [''EXISTING_KEY'' \<mapsto> ''EXISTING_VALUE''], p_writes = [], p_loaded = []\<rparr>)))) = [''/b'', ''/b.dev''] \<and>
   map fst (p_writes (snd (the (loadEnv 50
      \<lparr>platform = ''linux'',
       spawnSync = (\<lambda>c e. \<lparr>sp_error = None, sp_status = Some 1, sp_stdout = [], sp_stderr = []\<rparr>),
       readFile = [''/b'' \<mapsto> ''FOO=BAR'' @ [LF] @ ''EXISTING_KEY=NEW_VALUE'',
                  ''/b.dev'' \<mapsto> ''BAZ=qux'',
                  ''/b.prod'' \<mapsto> ''NODE_DOTENV_VARS=x''],
       toString_utf8 = (\<lambda>b. b)\<rparr>
      ''APP_ENV'' ''/b'' None ''dev'' [''test''] False
      \<lparr>p_env = [''EXISTING_KEY'' \<mapsto> ''EXISTING_VALUE''], p_writes = [], p_loaded = []\<rparr>))))
     = [''NODE_DOTENV_PATH'', ''FOO'', ''NODE_DOTENV_VARS'', ''APP_ENV'', ''NODE_DOTENV_VARS'',
        ''BAZ'', ''NODE_DOTENV_VARS''] \<and>
   loadedVars (p_env (snd (the (loadEnv 50
      \<lparr>platform = ''linux'',
       spawnSync = (\<lambda>c e. \<lparr>sp_error = None, sp_status = Some 1, sp_stdout = [], sp_stderr = []\<rparr>),
       readFile = [''/b'' \<mapsto> ''FOO=BAR'' @ [LF] @ ''EXISTING_KEY=NEW_VALUE'',
                  ''/b.dev'' \<mapsto> ''BAZ=qux'',
                  ''/b.prod'' \<mapsto> ''NODE_DOTENV_VARS=x''],
       toString_utf8 = (\<lambda>b. b)\<rparr>
      ''APP_ENV'' ''/b'' None ''dev'' [''test''] False
      \<lparr>p_env = [''EXISTING_KEY'' \<mapsto> ''EXISTING_VALUE''], p_writes = [], p_loaded = []\<rparr>)))) = [''FOO'', ''APP_ENV'', ''BAZ''] \<and>
   (\<exists>new. p_writes (snd (the (loadEnv 50
      \<lparr>platform = ''linux'',
       spawnSync = (\<lambda>c e. \<lparr>sp_error = None, sp_status = Some 1, sp_stdout = [], sp_stderr = []\<rparr>),
       readFile = [''/b'' \<mapsto> ''FOO=BAR'' @ [LF] @ ''EXISTING_KEY=NEW_VALUE'',
                  ''/b.dev'' \<mapsto> ''BAZ=qux'',
                  ''/b.prod'' \<mapsto> ''NODE_DOTENV_VARS=x''],
       toString_utf8 = (\<lambda>b. b)\<rparr>
      ''APP_ENV'' ''/b'' None ''dev'' [''test''] False
      \<lparr>p_env = [''EXISTING_KEY'' \<mapsto> ''EXISTING_VALUE''], p_writes = [], p_loaded = []\<rparr>)))
       = p_writes \<lparr>p_env = [''EXISTING_KEY'' \<mapsto> ''EXISTING_VALUE''], p_writes = [], p_loaded = []\<rparr> @ new \<and>
      (\<forall>x \<in> fst ` set new. x = SENTINEL_VARS \<or> x = SENTINEL_PATH
         \<or> x \<in> set (loadedVars (p_env (snd (the (loadEnv 50
      \<lparr>platform = ''linux'',
       spawnSync = (\<lambda>c e. \<lparr>sp_error = None, sp_status = Some 1, sp_stdout = [], sp_stderr = []\<rparr>),
       readFile = [''/b'' \<mapsto> ''FOO=BAR'' @ [LF] @ ''EXISTING_KEY=NEW_VALUE'',
                  ''/b.dev'' \<mapsto> ''BAZ=qux'',
                  ''/b.prod'' \<mapsto> ''NODE_DOTENV_VARS=x''],
       toString_utf8 = (\<lambda>b. b)\<rparr>
      ''APP_ENV'' ''/b'' None ''dev'' [''test''] False
      \<lparr>p_env = [''EXISTING_KEY'' \<mapsto> ''EXISTING_VALUE''], p_writes = [], p_loaded = []\<rparr>)))))))"
proof -
  let ?W = "\<lparr>platform = ''linux'',
       spawnSync = (\<lambda>c e. \<lparr>sp_error = None, sp_status = Some 1, sp_stdout = [], sp_stderr = []\<rparr>),
       readFile = [''/b'' \<mapsto> ''FOO=BAR'' @ [LF] @ ''EXISTING_KEY=NEW_VALUE'',
                  ''/b.dev'' \<mapsto> ''BAZ=qux'',
                  ''/b.prod'' \<mapsto> ''NODE_DOTENV_VARS=x''],
       toString_utf8 = (\<lambda>b. b)\<rparr>"
  let ?ps = "\<lparr>p_env = [''EXISTING_KEY'' \<mapsto> ''EXISTING_VALUE''], p_writes = [], p_loaded = []\<rparr>"
  let ?X = "loadEnv 50 ?W ''APP_ENV'' ''/b'' None ''dev'' [''test''] False ?ps"
  have a: "(case ?X of None \<Rightarrow> False | Some r \<Rightarrow> fst r = None)" by code_simp
  have run: "?X = Some (None, snd (the ?X))" using a by (rule run_without_error)
  have c: "clean_name ''APP_ENV''" by code_simp
  have s: "''APP_ENV'' \<noteq> SENTINEL_VARS" by (simp add: SENTINEL_VARS_def)
  have H: "list_all (\<lambda>fv. SENTINEL_VARS \<notin> set (map fst (snd fv))) (new_loaded ?ps (snd (the ?X)))"
    by code_simp
  have f: "map fst (p_loaded (snd (the ?X))) = [''/b'', ''/b.dev'']" by code_simp
  have w: "map fst (p_writes (snd (the ?X)))
     = [''NODE_DOTENV_PATH'', ''FOO'', ''NODE_DOTENV_VARS'', ''APP_ENV'', ''NODE_DOTENV_VARS'',
        ''BAZ'', ''NODE_DOTENV_VARS'']" by code_simp
  have l: "loadedVars (p_env (snd (the ?X))) = [''FOO'', ''APP_ENV'', ''BAZ'']" by code_simp
  have k0: "''APP_ENV'' = (case None of None \<Rightarrow> ''APP_ENV'' | Some e \<Rightarrow> e)" by simp
  have hyp: "?X = Some (None, snd (the ?X)) \<and>
     ''APP_ENV'' = (case None of None \<Rightarrow> ''APP_ENV'' | Some e \<Rightarrow> e) \<and>
     clean_name ''APP_ENV'' \<and> ''APP_ENV'' \<noteq> SENTINEL_VARS \<and>
     list_all (\<lambda>fv. SENTINEL_VARS \<notin> set (map fst (snd fv))) (new_loaded ?ps (snd (the ?X)))"
    by (intro conjI) (rule run k0 c s H)+
  have t: "(\<exists>new. p_writes (snd (the ?X)) = p_writes ?ps @ new \<and>
      (\<forall>x \<in> fst ` set new. x = SENTINEL_VARS \<or> x = SENTINEL_PATH
                                \<or> x \<in> set (loadedVars (p_env (snd (the ?X)))))) \<and>
   set (loadedVars (p_env ?ps)) \<subseteq> set (loadedVars (p_env (snd (the ?X))))"
    by (rule mp[OF sentinel_tracks_written_keys
      [where n=50 and w="?W" and this_envKey="''APP_ENV''" and p="''/b''" and envKey=None
         and defaultEnv="''dev''" and testEnvs="[''test'']" and ov=False and ps="?ps"
         and ps'="snd (the ?X)" and k="''APP_ENV''"] hyp])
  from t have t1: "\<exists>new. p_writes (snd (the ?X)) = p_writes ?ps @ new \<and>
      (\<forall>x \<in> fst ` set new. x = SENTINEL_VARS \<or> x = SENTINEL_PATH
                                \<or> x \<in> set (loadedVars (p_env (snd (the ?X)))))"
    by (rule conjunct1)
  show ?thesis by (intro conjI) (rule a k0 c s H f w l t1)+
qed

text \<open>
  Two cascades in one process: the first loads \<^verbatim>\<open>/a\<close> (\<^verbatim>\<open>OLD=1\<close>), the second \<^verbatim>\<open>/b\<close>
  (\<^verbatim>\<open>FOO=BAR\<close>). The second assigns \<^verbatim>\<open>NODE_DOTENV_PATH\<close>, \<^verbatim>\<open>FOO\<close> and the sentinel only, and
  the sentinel it leaves is \<^verbatim>\<open>OLD,APP_ENV,FOO\<close>: the keys of the first cascade are still there.
\<close>

theorem sentinel_keeps_prior_cascade_counterexample:
  "map fst (p_writes (snd (the (loadEnv 50
      \<lparr>platform = ''linux'',
       spawnSync = (\<lambda>c e. \<lparr>sp_error = None, sp_status = Some 1, sp_stdout = [], sp_stderr = []\<rparr>),
       readFile = [''/a'' \<mapsto> ''OLD=1'', ''/b'' \<mapsto> ''FOO=BAR''],
      toString_utf8 = (\<lambda>b. b)\<rparr>
      ''APP_ENV'' ''/a'' None ''dev'' [''test''] False
      \<lparr>p_env = Map.empty, p_writes = [], p_loaded = []\<rparr>))))
     = [''NODE_DOTENV_PATH'', ''OLD'', ''NODE_DOTENV_VARS'', ''APP_ENV'', ''NODE_DOTENV_VARS''] \<and>
   map fst (p_writes (snd (the (loadEnv 50
      \<lparr>platform = ''linux'',
       spawnSync = (\<lambda>c e. \<lparr>sp_error = None, sp_status = Some 1, sp_stdout = [], sp_stderr = []\<rparr>),
       readFile = [''/a'' \<mapsto> ''OLD=1'', ''/b'' \<mapsto> ''FOO=BAR''],
      toString_utf8 = (\<lambda>b. b)\<rparr>
      ''APP_ENV'' ''/b'' None ''dev'' [''test''] False
      (snd (the (loadEnv 50
        \<lparr>platform = ''linux'',
         spawnSync = (\<lambda>c e. \<lparr>sp_error = None, sp_status = Some 1, sp_stdout = [], sp_stderr = []\<rparr>),
         readFile = [''/a'' \<mapsto> ''OLD=1'', ''/b'' \<mapsto> ''FOO=BAR''],
      toString_utf8 = (\<lambda>b. b)\<rparr>
        ''APP_ENV'' ''/a'' None ''dev'' [''test''] False
        \<lparr>p_env = Map.empty, p_writes = [], p_loaded = []\<rparr>)))))))
     = [''NODE_DOTENV_PATH'', ''OLD'', ''NODE_DOTENV_VARS'', ''APP_ENV'', ''NODE_DOTENV_VARS'']
       @ [''NODE_DOTENV_PATH'', ''FOO'', ''NODE_DOTENV_VARS''] \<and>
   p_env (snd (the (loadEnv 50
      \<lparr>platform = ''linux'',
       spawnSync = (\<lambda>c e. \<lparr>sp_error = None, sp_status = Some 1, sp_stdout = [], sp_stderr = []\<rparr>),
       readFile = [''/a'' \<mapsto> ''OLD=1'', ''/b'' \<mapsto> ''FOO=BAR''],
      toString_utf8 = (\<lambda>b. b)\<rparr>
      ''APP_ENV'' ''/b'' None ''dev'' [''test''] False
      (snd (the (loadEnv 50
        \<lparr>platform = ''linux'',
         spawnSync = (\<lambda>c e. \<lparr>sp_error = None, sp_status = Some 1, sp_stdout = [], sp_stderr = []\<rparr>),
         readFile = [''/a'' \<mapsto> ''OLD=1'', ''/b'' \<mapsto> ''FOO=BAR''],
      toString_utf8 = (\<lambda>b. b)\<rparr>
        ''APP_ENV'' ''/a'' None ''dev'' [''test''] False
        \<lparr>p_env = Map.empty, p_writes = [], p_loaded = []\<rparr>)))))) SENTINEL_VARS
     = Some ''OLD,APP_ENV,FOO''"
  by code_simp

end
